theory Spec2Isabelle
  imports Main
begin

section \<open>Byte strings as Python 2 handles them\<close>

text \<open>
  The reader works on Python 2 byte strings: \<open>b'x'\<close> and \<open>'x'\<close> are the same
  value, indexing gives a one-character string, and slices clip their bounds.
  Positions are \<open>int\<close>, since the code computes them by arithmetic on offsets that
  come from the file and a negative bound counts from the end.
\<close>

definition norm_index :: "string \<Rightarrow> int \<Rightarrow> nat" where
  "norm_index s i =
     (if i < 0 then nat (max 0 (int (length s) + i)) else min (nat i) (length s))"

definition py_slice :: "string \<Rightarrow> int \<Rightarrow> int \<Rightarrow> string" where
  "py_slice s a b = take (norm_index s b - norm_index s a) (drop (norm_index s a) s)"


definition startswith :: "string \<Rightarrow> string \<Rightarrow> bool" where
  "startswith s sub = (take (length sub) s = sub)"

fun find_aux :: "string \<Rightarrow> string \<Rightarrow> nat \<Rightarrow> nat option" where
  "find_aux sub [] i = (if sub = [] then Some i else None)"
| "find_aux sub (c # cs) i =
     (if startswith (c # cs) sub then Some i else find_aux sub cs (Suc i))"


definition py_find :: "string \<Rightarrow> string \<Rightarrow> int \<Rightarrow> int \<Rightarrow> int" where
  \<comment> \<open>\<open>s.find(sub, a, b)\<close>: the lowest index of a match lying inside \<open>s[a:b]\<close>, else -1.\<close>
  "py_find s sub a b =
     (if norm_index s b < norm_index s a then -1
      else case find_aux sub (py_slice s a b) (norm_index s a) of
             None \<Rightarrow> -1 | Some i \<Rightarrow> int i)"

definition py_find_from :: "string \<Rightarrow> string \<Rightarrow> int \<Rightarrow> int" where
  "py_find_from s sub a = py_find s sub a (int (length s))"


definition is_digit_char :: "char \<Rightarrow> bool" where
  "is_digit_char c = (c \<in> set ''0123456789'')"

definition isdigit :: "string \<Rightarrow> bool" where
  "isdigit s = (s \<noteq> [] \<and> list_all is_digit_char s)"

definition is_space :: "char \<Rightarrow> bool" where
  "is_space c = (c \<in> {CHR '' '', CHR 0x09, CHR 0x0A, CHR 0x0B, CHR 0x0C, CHR 0x0D})"

definition rstrip :: "string \<Rightarrow> string" where
  "rstrip s = rev (dropWhile is_space (rev s))"

definition strip :: "string \<Rightarrow> string" where
  "strip s = rstrip (dropWhile is_space s)"

definition digit_val :: "char \<Rightarrow> int" where
  "digit_val c = int (of_char c) - 48"

definition digits_val :: "string \<Rightarrow> int" where
  "digits_val s = foldl (\<lambda>acc c. 10 * acc + digit_val c) 0 s"

definition py_int :: "string \<Rightarrow> int option" where
  \<comment> \<open>\<open>int(s)\<close> on a string: surrounding blanks, one optional sign, decimal digits;
      \<open>None\<close> stands for the \<open>ValueError\<close>.\<close>
  "py_int s =
     (let t = strip s;
          (neg, d) = (case t of
                        c # cs \<Rightarrow> if c = CHR ''-'' then (True, cs)
                                  else if c = CHR ''+'' then (False, cs) else (False, t)
                      | [] \<Rightarrow> (False, t))
      in if isdigit d then Some (if neg then - digits_val d else digits_val d) else None)"

fun split_aux :: "string \<Rightarrow> string \<Rightarrow> string list" where
  "split_aux cur [] = (if cur = [] then [] else [cur])"
| "split_aux cur (c # cs) =
     (if is_space c then (if cur = [] then split_aux [] cs else cur # split_aux [] cs)
      else split_aux (cur @ [c]) cs)"

definition split :: "string \<Rightarrow> string list" where
  \<comment> \<open>\<open>s.split()\<close>: the maximal runs of non-blank characters.\<close>
  "split s = split_aux [] s"




function show_nat :: "nat \<Rightarrow> string" where
  "show_nat n =
     (if n < 10 then [char_of (48 + n)] else show_nat (n div 10) @ [char_of (48 + n mod 10)])"
  by pat_completeness auto
termination
  by (relation "measure id") auto

definition show_int :: "int \<Rightarrow> string" where
  \<comment> \<open>the \<open>%d\<close> conversion\<close>
  "show_int i = (if i < 0 then CHR ''-'' # show_nat (nat (- i)) else show_nat (nat i))"

section \<open>The object model\<close>

text \<open>
  The value types live in \<open>objects.py\<close>, which is not part of the sources at hand;
  \<open>pdfreader.py\<close> uses them as follows, and the datatype has one constructor for each
  use: a token is a \<open>PdfObject\<close> (a string that accepts attributes), \<open>PdfArray\<close> is a
  list, \<open>PdfDict\<close> a dictionary with the private slot \<open>_stream\<close>, \<open>PdfIndirect\<close> the
  placeholder made by \<open>findindirect\<close>, and \<open>PyNone\<close> is Python's \<open>None\<close>. Each of the
  first three carries the attribute \<open>indirect\<close> that \<open>loadindirect\<close> sets.
\<close>

type_synonym key = "int \<times> int"

datatype pdfobj =
    PyNone
  | PdfObject string "key option"
  | PdfArray "pdfobj list" "key option"
  | PdfDict "(string \<times> pdfobj) list" "key option" "string option"
  | PdfIndirect key

datatype error =
    PdfParseError string
  | StopIteration
  | ValueError
  | TypeError
  | AttributeError
  | KeyError
  | IndexError
  | OutOfFuel

datatype severity = Warning | Error

fun is_PdfIndirect :: "pdfobj \<Rightarrow> bool" where
  "is_PdfIndirect (PdfIndirect k) = True"
| "is_PdfIndirect _ = False"

fun is_PdfDict :: "pdfobj \<Rightarrow> bool" where
  "is_PdfDict (PdfDict es i s) = True"
| "is_PdfDict _ = False"

fun dict_del :: "(string \<times> pdfobj) list \<Rightarrow> string \<Rightarrow> (string \<times> pdfobj) list" where
  "dict_del [] k = []"
| "dict_del ((k', v) # es) k = (if k' = k then dict_del es k else (k', v) # dict_del es k)"

fun dict_put :: "(string \<times> pdfobj) list \<Rightarrow> string \<Rightarrow> pdfobj \<Rightarrow> (string \<times> pdfobj) list" where
  "dict_put [] k v = [(k, v)]"
| "dict_put ((k', v') # es) k v = (if k' = k then (k, v) # es else (k', v') # dict_put es k v)"

definition dict_setitem :: "(string \<times> pdfobj) list \<Rightarrow> string \<Rightarrow> pdfobj \<Rightarrow> (string \<times> pdfobj) list" where
  \<comment> \<open>Modelled from the spec: \<open>PdfDict.__setitem__\<close> is in \<open>objects.py\<close>; storing \<open>None\<close>
      clears the entry (the trailer is adopted "with its /Prev cleared" by
      \<open>newdict.Prev = None\<close>), any other value is stored under the name.\<close>
  "dict_setitem es k v = (if v = PyNone then dict_del es k else dict_put es k v)"

definition dict_get :: "(string \<times> pdfobj) list \<Rightarrow> string \<Rightarrow> pdfobj" where
  \<comment> \<open>Modelled from the spec: \<open>PdfDict\<close> lookup is in \<open>objects.py\<close>; a missing name reads
      as \<open>None\<close>, as \<open>newdict.Prev is None\<close> relies on.\<close>
  "dict_get es k = (case map_of es k of None \<Rightarrow> PyNone | Some v \<Rightarrow> v)"

fun set_indirect :: "pdfobj \<Rightarrow> key \<Rightarrow> error + pdfobj" where
  \<comment> \<open>\<open>obj.indirect = key\<close>; \<open>None\<close> has no attributes.\<close>
  "set_indirect PyNone k = Inl AttributeError"
| "set_indirect (PdfObject s i) k = Inr (PdfObject s (Some k))"
| "set_indirect (PdfArray xs i) k = Inr (PdfArray xs (Some k))"
| "set_indirect (PdfDict es i s) k = Inr (PdfDict es (Some k) s)"
| "set_indirect (PdfIndirect k') k = Inr (PdfIndirect k')"

fun set_stream :: "pdfobj \<Rightarrow> string \<Rightarrow> pdfobj" where
  \<comment> \<open>\<open>obj._stream = data\<close>; only reached with a dictionary.\<close>
  "set_stream (PdfDict es i s) d = PdfDict es i (Some d)"
| "set_stream obj d = obj"

fun py_int_obj :: "pdfobj \<Rightarrow> error + int" where
  \<comment> \<open>\<open>int(x)\<close>: a token is parsed, any other value is a \<open>TypeError\<close>.\<close>
  "py_int_obj (PdfObject s i) = (case py_int s of None \<Rightarrow> Inl ValueError | Some v \<Rightarrow> Inr v)"
| "py_int_obj _ = Inl TypeError"

section \<open>The loader state and its token source\<close>

text \<open>
  One record holds the reader's private attributes and those of its token source
  (\<open>PdfTokens\<close>, in \<open>tokens.py\<close>, not part of the sources at hand). The lexical grammar
  is the field \<open>tokenizer\<close>: given the buffer and an offset it gives the span of the
  next token, or \<open>None\<close> at the end of input. \<open>logged\<close> collects what \<open>log.warning\<close>,
  \<open>log.error\<close>, \<open>source.warning\<close> and \<open>source.error\<close> report, oldest first.
  \<open>deferred_objects\<close> is a Python set; the list gives the order in which \<open>read_all\<close>
  iterates over it.
\<close>

record reader =
  fdata :: string
  floc :: int
  tokstart :: int
  tokenizer :: "string \<Rightarrow> int \<Rightarrow> (int \<times> int) option"
  obj_offsets :: "key \<rightharpoonup> int"
  all_offsets :: "int list"
  indirect_objects :: "key \<rightharpoonup> pdfobj"
  deferred_objects :: "key list"
  warned_bad_stream_start :: bool
  warned_bad_stream_end :: bool
  logged :: "(severity \<times> string) list"

definition warning :: "string \<Rightarrow> reader \<Rightarrow> reader" where
  "warning msg st = st\<lparr>logged := logged st @ [(Warning, msg)]\<rparr>"

definition log_error :: "string \<Rightarrow> reader \<Rightarrow> reader" where
  \<comment> \<open>Modelled from the spec: \<open>source.error\<close> records the condition and returns; the
      statements after each call of it in \<open>readstream\<close> rely on that.\<close>
  "log_error msg st = st\<lparr>logged := logged st @ [(Error, msg)]\<rparr>"

definition set_floc :: "int \<Rightarrow> reader \<Rightarrow> reader" where
  "set_floc p st = st\<lparr>floc := p\<rparr>"

definition next_tok :: "reader \<Rightarrow> error + (string \<times> reader)" where
  \<comment> \<open>Modelled from the spec: \<open>next(source)\<close>. The token source is sequential: a token
      is a non-empty piece of the buffer that starts at or after the current offset,
      and reading it moves the offset to its end. \<open>StopIteration\<close> is the end of input.\<close>
  "next_tok st =
     (case tokenizer st (fdata st) (floc st) of
        None \<Rightarrow> Inl StopIteration
      | Some (a, b) \<Rightarrow>
          if 0 \<le> a \<and> floc st \<le> a \<and> a < b \<and> b \<le> int (length (fdata st))
          then Inr (py_slice (fdata st) a b, st\<lparr>tokstart := a, floc := b\<rparr>)
          else Inl StopIteration)"

fun multiple :: "nat \<Rightarrow> reader \<Rightarrow> string list \<times> reader" where
  \<comment> \<open>Modelled from the spec: \<open>source.multiple(n)\<close> reads up to \<open>n\<close> tokens as a batch and
      gives fewer at the end of input (\<open>loadindirect\<close> tests \<open>len(objid) == 3\<close>).\<close>
  "multiple 0 st = ([], st)"
| "multiple (Suc n) st =
     (case next_tok st of
        Inl e \<Rightarrow> ([], st)
      | Inr (t, st') \<Rightarrow> (case multiple n st' of (ts, st'') \<Rightarrow> (t # ts, st'')))"

definition table_get :: "reader \<Rightarrow> key \<Rightarrow> pdfobj" where
  \<comment> \<open>\<open>self.indirect_objects.get(key)\<close>\<close>
  "table_get st k = (case indirect_objects st k of None \<Rightarrow> PyNone | Some v \<Rightarrow> v)"

definition deferred_add :: "key \<Rightarrow> key list \<Rightarrow> key list" where
  "deferred_add k ks = (if k \<in> set ks then ks else ks @ [k])"

definition findindirect :: "pdfobj \<Rightarrow> pdfobj \<Rightarrow> reader \<Rightarrow> error + (pdfobj \<times> reader)" where
  "findindirect objnum gennum st =
     (case py_int_obj objnum of
        Inl e \<Rightarrow> Inl e
      | Inr n \<Rightarrow>
          (case py_int_obj gennum of
             Inl e \<Rightarrow> Inl e
           | Inr g \<Rightarrow>
               (let k = (n, g); result = table_get st k
                in if result = PyNone
                   then Inr (PdfIndirect k,
                             st\<lparr>indirect_objects := (indirect_objects st)(k \<mapsto> PdfIndirect k),
                                deferred_objects := deferred_add k (deferred_objects st)\<rparr>)
                   else Inr (result, st))))"

section \<open>Container parsing\<close>

datatype special = Readdict | Readarray | Empty_obj | Badtoken

definition special_get :: "string \<Rightarrow> special option" where
  \<comment> \<open>the table \<open>self.special\<close> built in \<open>__init__\<close>\<close>
  "special_get t =
     (if t = ''<<'' then Some Readdict
      else if t = ''['' then Some Readarray
      else if t = ''endobj'' then Some Empty_obj
      else if t \<in> set [[CHR 0x5C], ''('', '')'', ''<'', ''>'', ''{'', ''}'', '']'', ''>>'', ''%'']
      then Some Badtoken
      else None)"

definition empty_obj :: "reader \<Rightarrow> error + (pdfobj \<times> reader)" where
  \<comment> \<open>backs up to the start of the token just read and returns nothing, that is \<open>None\<close>\<close>
  "empty_obj st = Inr (PyNone, set_floc (tokstart st) st)"

definition badtoken :: "reader \<Rightarrow> error + (pdfobj \<times> reader)" where
  "badtoken st = Inl (PdfParseError ''Unexpected delimiter'')"

text \<open>
  \<open>readarray\<close> and \<open>readdict\<close> call each other through the table \<open>special\<close>, and
  \<open>empty_obj\<close> moves the offset backwards, so the iteration need not end. The first
  argument bounds the number of loop iterations and nested calls; \<open>OutOfFuel\<close> says
  that the bound was reached. A token is the \<open>PdfObject\<close> of its text.
\<close>

fun readarray :: "nat \<Rightarrow> reader \<Rightarrow> pdfobj list \<Rightarrow> error + (pdfobj \<times> reader)"
  and readdict_loop :: "nat \<Rightarrow> reader \<Rightarrow> string \<Rightarrow> (string \<times> pdfobj) list \<Rightarrow> error + (pdfobj \<times> reader)"
  and call_special :: "nat \<Rightarrow> special \<Rightarrow> reader \<Rightarrow> error + (pdfobj \<times> reader)"
where
  "readarray 0 st result = Inl OutOfFuel"
| "readarray (Suc n) st result =
     (case next_tok st of
        Inl e \<Rightarrow> Inr (PdfArray result None, st)
      | Inr (v, st1) \<Rightarrow>
          if v \<in> set [[], '']'', ''R'', '']R''] then
            (if v = '']'' then Inr (PdfArray result None, st1)
             else if result = [] then Inl IndexError
             else if butlast result = [] then Inl IndexError
             else (case findindirect (last (butlast result)) (last result) st1 of
                     Inl e \<Rightarrow> Inl e
                   | Inr (value, st2) \<Rightarrow> readarray n st2 (butlast (butlast result) @ [value])))
          else
            (case special_get v of
               None \<Rightarrow> readarray n st1 (result @ [PdfObject v None])
             | Some func \<Rightarrow>
                 (case call_special n func st1 of
                    Inl e \<Rightarrow> Inl e
                  | Inr (value, st2) \<Rightarrow> readarray n st2 (result @ [value]))))"
| "readdict_loop 0 st tok result = Inl OutOfFuel"
| "readdict_loop (Suc n) st tok result =
     (if tok = ''>>'' then Inr (PdfDict result None None, st)
      else if \<not> startswith tok ''/'' then Inl (PdfParseError ''Expected PDF /name object'')
      else
        (case next_tok st of
           Inl e \<Rightarrow> Inl e
         | Inr (v, st1) \<Rightarrow>
             (case special_get v of
                Some func \<Rightarrow>
                  (case call_special n func st1 of
                     Inl e \<Rightarrow> Inl e
                   | Inr (value, st2) \<Rightarrow>
                       (case next_tok st2 of
                          Inl e \<Rightarrow> Inl e
                        | Inr (tok', st3) \<Rightarrow>
                            readdict_loop n st3 tok' (dict_setitem result tok value)))
              | None \<Rightarrow>
                  (case next_tok st1 of
                     Inl e \<Rightarrow> Inl e
                   | Inr (tok1, st2) \<Rightarrow>
                       if isdigit v \<and> isdigit tok1 then
                         (case next_tok st2 of
                            Inl e \<Rightarrow> Inl e
                          | Inr (r, st3) \<Rightarrow>
                              if r \<noteq> ''R''
                              then Inl (PdfParseError ''Expected R following two integers'')
                              else
                                (case findindirect (PdfObject v None) (PdfObject tok1 None) st3 of
                                   Inl e \<Rightarrow> Inl e
                                 | Inr (value, st4) \<Rightarrow>
                                     (case next_tok st4 of
                                        Inl e \<Rightarrow> Inl e
                                      | Inr (tok', st5) \<Rightarrow>
                                          readdict_loop n st5 tok' (dict_setitem result tok value))))
                       else readdict_loop n st2 tok1 (dict_setitem result tok (PdfObject v None))))))"
| "call_special 0 func st = Inl OutOfFuel"
| "call_special (Suc n) Readdict st =
     (case next_tok st of
        Inl e \<Rightarrow> Inl e
      | Inr (tok, st1) \<Rightarrow> readdict_loop n st1 tok [])"
| "call_special (Suc n) Readarray st = readarray n st []"
| "call_special (Suc n) Empty_obj st = empty_obj st"
| "call_special (Suc n) Badtoken st = badtoken st"


section \<open>Stream detection and extraction\<close>

definition py_index :: "string \<Rightarrow> int \<Rightarrow> error + char" where
  \<comment> \<open>\<open>s[i]\<close>: an index below zero counts from the end\<close>
  "py_index s i =
     (if 0 \<le> i \<and> i < int (length s) then Inr (s ! nat i)
      else if i < 0 \<and> - int (length s) \<le> i then Inr (s ! nat (int (length s) + i))
      else Inl IndexError)"

definition findstream :: "pdfobj \<Rightarrow> string \<Rightarrow> reader \<Rightarrow> error + (int \<times> reader)" where
  "findstream obj tok st =
     (if \<not> is_PdfDict obj \<or> tok \<noteq> ''stream''
      then Inl (PdfParseError ''Expected endobj or stream token'')
      else
        (let startstream = tokstart st + int (length tok)
         in case py_index (fdata st) startstream of
              Inl e \<Rightarrow> Inl e
            | Inr c1 \<Rightarrow>
                (let gotcr = (c1 = CHR 0x0D);
                     startstream = startstream + (if gotcr then 1 else 0)
                 in case py_index (fdata st) startstream of
                      Inl e \<Rightarrow> Inl e
                    | Inr c2 \<Rightarrow>
                        (let gotlf = (c2 = CHR 0x0A);
                             startstream = startstream + (if gotlf then 1 else 0)
                         in if \<not> gotlf then
                              (if \<not> gotcr
                               then Inl (PdfParseError ''stream keyword not followed by newline'')
                               else if \<not> warned_bad_stream_start st
                               then Inr (startstream,
                                         (warning ''stream keyword terminated by CR without LF'' st)
                                           \<lparr>warned_bad_stream_start := True\<rparr>)
                               else Inr (startstream, st))
                            else Inr (startstream, st)))))"

fun obj_Length :: "pdfobj \<Rightarrow> pdfobj" where
  \<comment> \<open>\<open>obj.Length\<close>\<close>
  "obj_Length (PdfDict es i s) = dict_get es ''/Length''"
| "obj_Length _ = PyNone"

definition streamending :: "string list" where
  "streamending = [''endstream'', ''endobj'']"

definition readstream :: "pdfobj \<Rightarrow> int \<Rightarrow> reader \<Rightarrow> error + (pdfobj \<times> reader)" where
  \<comment> \<open>The object is mutated in place by the code; here the updated object is returned.
      \<open>obj.stream = ...\<close> in the branch of a too big length goes through the property
      of \<open>PdfDict\<close> (in \<open>objects.py\<close>) and is taken to fill the same payload slot.\<close>
  "readstream obj startstream st =
     (case py_int_obj (obj_Length obj) of
        Inl e \<Rightarrow> Inl e
      | Inr length' \<Rightarrow>
          (let target_endstream = startstream + length';
               (endit, st1) = multiple 2 (set_floc target_endstream st);
               obj1 = set_stream obj (py_slice (fdata st) startstream target_endstream)
           in if endit = streamending then Inr (obj1, st1)
              else
                (let st2 = st1\<lparr>warned_bad_stream_end := False\<rparr>;
                     maxstream = int (length (fdata st)) - 20;
                     endstream = py_find (fdata st) ''endstream'' startstream maxstream;
                     st3 = set_floc startstream st2;
                     room = endstream - startstream
                 in if endstream < 0
                    then Inr (obj1, log_error ''Could not find endstream'' st3)
                    else if length' = room + 1 \<and>
                            py_slice (fdata st) (startstream - 2) startstream = [CHR 0x0D, CHR 0x0A]
                    then Inr (set_stream obj1
                                (py_slice (fdata st) (startstream - 1) (target_endstream - 1)),
                              warning ''stream keyword terminated by CR without LF'' st3)
                    else
                      (let st4 = set_floc endstream st3
                       in if length' > room
                          then Inr (set_stream obj1 (py_slice (fdata st) startstream endstream),
                                    log_error ''stream /Length attribute appears to be too big'' st4)
                          else if rstrip (py_slice (fdata st) target_endstream endstream) \<noteq> []
                          then Inr (obj1,
                                    log_error ''stream /Length attribute might be smaller than data size'' st4)
                          else
                            (let endobj = py_find (fdata st) ''endobj'' endstream maxstream
                             in if endobj < 0
                                then Inr (obj1, log_error ''Could not find endobj after endstream'' st4)
                                else if rstrip (py_slice (fdata st) endstream endobj) \<noteq> ''endstream''
                                then Inr (obj1,
                                          log_error ''Unexpected data between endstream and endobj'' st4)
                                else Inr (obj1,
                                          log_error ''Illegal endstream/endobj combination'' st4))))))"

section \<open>Lazy loading of indirect objects\<close>

definition deferred_remove :: "key \<Rightarrow> key list \<Rightarrow> error + key list" where
  \<comment> \<open>\<open>set.remove\<close> raises \<open>KeyError\<close> on a missing element\<close>
  "deferred_remove k ks = (if k \<in> set ks then Inr (removeAll k ks) else Inl KeyError)"

definition objheader :: "key \<Rightarrow> string" where
  "objheader k = show_int (fst k) @ '' '' @ show_int (snd k) @ '' obj''"

definition header_ok :: "string list \<Rightarrow> key \<Rightarrow> bool" where
  "header_ok objid k =
     (length objid = 3 \<and>
      isdigit (objid ! 0) \<and> py_int (objid ! 0) = Some (fst k) \<and>
      isdigit (objid ! 1) \<and> py_int (objid ! 1) = Some (snd k) \<and>
      objid ! 2 = ''obj'')"

definition resync :: "key \<Rightarrow> int \<Rightarrow> reader \<Rightarrow> error + (bool \<times> reader)" where
  \<comment> \<open>The branch \<open>if not ok\<close> of \<open>loadindirect\<close>: \<open>False\<close> when the object is given up
      (the caller returns \<open>None\<close>), \<open>True\<close> when the header was found elsewhere.\<close>
  "resync k offset st =
     (case next_tok (set_floc offset st) of
        Inl e \<Rightarrow> Inl e
      | Inr (t, st1) \<Rightarrow>
          (let hdr = objheader k;
               f1 = py_find_from (fdata st) (CHR 0x0A # hdr) 0 + 1;
               offset2 = (if f1 \<noteq> 0 then f1 else py_find_from (fdata st) (CHR 0x0D # hdr) 0 + 1)
           in if offset2 = 0
              then Inr (False, warning ''Expected indirect object'' st1)
              else
                (case py_index (fdata st) (offset2 - 1) of
                   Inl e \<Rightarrow> Inl e
                 | Inr c \<Rightarrow>
                     if py_find_from (fdata st) (c # hdr) offset2 > 0
                     then Inr (False, warning ''Expected indirect object'' st1)
                     else Inr (True,
                               set_floc (offset2 + int (length hdr))
                                 (warning ''Indirect object found at incorrect offset'' st1)))))"

definition read_value :: "nat \<Rightarrow> reader \<Rightarrow> error + (pdfobj \<times> reader)" where
  \<comment> \<open>\<open>obj = next(source)\<close>, replaced by the result of the special function of that
      token when it has one\<close>
  "read_value n st =
     (case next_tok st of
        Inl e \<Rightarrow> Inl e
      | Inr (t, st1) \<Rightarrow>
          (case special_get t of
             None \<Rightarrow> Inr (PdfObject t None, st1)
           | Some func \<Rightarrow> call_special n func st1))"

definition read_body :: "nat \<Rightarrow> key \<Rightarrow> reader \<Rightarrow> error + (pdfobj \<times> reader)" where
  \<comment> \<open>The second half of \<open>loadindirect\<close>, from the comment "Read the object" on. The
      table holds the very object that is tagged and given its stream afterwards, so
      the table entry made here is the finished object.\<close>
  "read_body n k st =
     (case read_value n st of
        Inl e \<Rightarrow> Inl e
      | Inr (obj, st2) \<Rightarrow>
          (case deferred_remove k (deferred_objects st2) of
             Inl e \<Rightarrow> Inl e
           | Inr ds \<Rightarrow>
               (case set_indirect obj k of
                  Inl e \<Rightarrow> Inl e
                | Inr obj1 \<Rightarrow>
                    (case next_tok st2 of
                       Inl e \<Rightarrow> Inl e
                     | Inr (tok, st3) \<Rightarrow>
                         if tok \<noteq> ''endobj'' then
                           (case findstream obj1 tok st3 of
                              Inl e \<Rightarrow> Inl e
                            | Inr (startstream, st4) \<Rightarrow>
                                (case readstream obj1 startstream st4 of
                                   Inl e \<Rightarrow> Inl e
                                 | Inr (obj2, st5) \<Rightarrow>
                                     Inr (obj2,
                                          st5\<lparr>indirect_objects := (indirect_objects st5)(k \<mapsto> obj2),
                                              deferred_objects := ds\<rparr>)))
                         else Inr (obj1,
                                   st3\<lparr>indirect_objects := (indirect_objects st3)(k \<mapsto> obj1),
                                       deferred_objects := ds\<rparr>)))))"

definition loadindirect :: "nat \<Rightarrow> key \<Rightarrow> reader \<Rightarrow> error + (pdfobj \<times> reader)" where
  "loadindirect n k st =
     (let result = table_get st k
      in if \<not> is_PdfIndirect result then Inr (result, st)
         else
           (let offset = (case obj_offsets st k of None \<Rightarrow> 0 | Some v \<Rightarrow> v)
            in if offset = 0
               then Inr (PyNone, warning ''Did not find PDF object'' st)
               else
                 (case multiple 3 (set_floc offset st) of
                    (objid, st1) \<Rightarrow>
                      if \<not> header_ok objid k then
                        (case resync k offset st1 of
                           Inl e \<Rightarrow> Inl e
                         | Inr (found, st2) \<Rightarrow>
                             if found then read_body n k st2 else Inr (PyNone, st2))
                      else read_body n k st1)))"

section \<open>Forcing every deferred object\<close>

text \<open>
  \<open>read_all\<close> returns nothing; what it does is in the state it leaves. To state how
  often it loads, the functions below also list the keys they hand to
  \<open>loadindirect\<close>, in the order of the calls (the code keeps no such list).
  \<open>deferred - prev\<close> is a set, so each of its keys is visited once.
\<close>

fun load_keys :: "nat \<Rightarrow> key list \<Rightarrow> reader \<Rightarrow> key list \<times> (error + reader)" where
  \<comment> \<open>\<open>for key in new: self.loadindirect(key)\<close>\<close>
  "load_keys n [] st = ([], Inr st)"
| "load_keys n (k # ks) st =
     (case loadindirect n k st of
        Inl e \<Rightarrow> ([k], Inl e)
      | Inr (obj, st') \<Rightarrow> (case load_keys n ks st' of (tr, r) \<Rightarrow> (k # tr, r)))"

text \<open>
  The loop \<open>while 1\<close> of \<open>read_all\<close>. It runs as long as a sweep finds a key that was
  not attempted before, and the objects loaded may name new keys, so the number of
  sweeps is bounded by the first argument; \<open>None\<close> says that the bound was reached.
  The second argument is the bound handed to the container parser.
\<close>

fun read_all_loop ::
  "nat \<Rightarrow> nat \<Rightarrow> key set \<Rightarrow> key list \<Rightarrow> reader \<Rightarrow> (key list \<times> (error + reader)) option" where
  "read_all_loop 0 n prev tr st = None"
| "read_all_loop (Suc f) n prev tr st =
     (let new = remdups (filter (\<lambda>k. k \<notin> prev) (deferred_objects st))
      in if new = [] then Some (tr, Inr st)
         else (case load_keys n new st of
                 (tr', Inl e) \<Rightarrow> Some (tr @ tr', Inl e)
               | (tr', Inr st') \<Rightarrow>
                   read_all_loop f n (prev \<union> set (deferred_objects st)) (tr @ tr') st'))"

definition read_all :: "nat \<Rightarrow> nat \<Rightarrow> reader \<Rightarrow> (key list \<times> (error + reader)) option" where
  "read_all f n st = read_all_loop f n {} [] st"

section \<open>Cross-reference sections\<close>

definition setdefault :: "key \<Rightarrow> int \<Rightarrow> (key \<rightharpoonup> int) \<Rightarrow> (key \<rightharpoonup> int)" where
  \<comment> \<open>\<open>dict.setdefault\<close>: insert if absent\<close>
  "setdefault k v m = (case m k of None \<Rightarrow> m(k \<mapsto> v) | Some old \<Rightarrow> m)"

definition add_entry :: "key \<Rightarrow> int \<Rightarrow> reader \<Rightarrow> reader" where
  \<comment> \<open>\<open>setdefault((objnum, generation), offset); add_offset(offset)\<close>\<close>
  "add_entry k offset st =
     st\<lparr>obj_offsets := setdefault k offset (obj_offsets st),
        all_offsets := all_offsets st @ [offset]\<rparr>"






section \<open>The chain of sections and the merge\<close>







section \<open>Page tree flattening\<close>





section \<open>A token grammar for concrete documents\<close>

definition is_delim :: "char \<Rightarrow> bool" where
  "is_delim c = (c \<in> set ''()<>[]{}/%'')"

definition is_regular :: "char \<Rightarrow> bool" where
  "is_regular c = (\<not> is_space c \<and> \<not> is_delim c)"

definition pdf_tokenizer :: "string \<Rightarrow> int \<Rightarrow> (int \<times> int) option" where
  \<comment> \<open>Modelled from the spec: the lexical tokenizer is an external collaborator
      (\<open>tokens.py\<close> is not part of the sources at hand). This is the plain token grammar
      of the file format, used for the concrete documents below: blanks separate
      tokens, \<open><<\<close> and \<open>>>\<close> and each single delimiter are tokens, a name is \<open>/\<close> and
      the regular characters after it, anything else is a run of regular characters.\<close>
  "pdf_tokenizer s p =
     (let i = nat (max 0 p);
          rest = drop i s;
          ws = length (takeWhile is_space rest);
          a = int (i + ws)
      in case drop ws rest of
           [] \<Rightarrow> None
         | c # cs \<Rightarrow>
             if (c = CHR ''<'' \<or> c = CHR ''>'') \<and> take 1 cs = [c] then Some (a, a + 2)
             else if c = CHR ''/'' then Some (a, a + 1 + int (length (takeWhile is_regular cs)))
             else if is_delim c then Some (a, a + 1)
             else Some (a, a + int (length (takeWhile is_regular (c # cs)))))"

definition new_reader :: "string \<Rightarrow> reader" where
  \<comment> \<open>the attributes as \<open>__init__\<close> sets them before it reads the cross-reference table\<close>
  "new_reader data =
     \<lparr>fdata = data, floc = 0, tokstart = 0, tokenizer = pdf_tokenizer,
      obj_offsets = Map.empty, all_offsets = [],
      indirect_objects = Map.empty, deferred_objects = [],
      warned_bad_stream_start = False, warned_bad_stream_end = False, logged = []\<rparr>"

section \<open>Concrete documents\<close>

definition pad :: string where
  "pad = '' % padding padding padding''"

definition ex_stream_ok :: reader where
  "ex_stream_ok = new_reader (''<< /Length 5 >> stream'' @ [CHR 0x0A] @ ''hello'' @ [CHR 0x0A] @ ''endstream endobj'' @ pad)"

definition ex_len5 :: pdfobj where
  "ex_len5 = PdfDict [(''/Length'', PdfObject ''5'' None)] None None"



definition ex_stream_big :: reader where
  "ex_stream_big = new_reader (''<< /Length 9 >> stream'' @ [CHR 0x0A] @ ''hello'' @ [CHR 0x0A] @ ''endstream endobj'' @ pad)"

definition ex_len9 :: pdfobj where
  "ex_len9 = PdfDict [(''/Length'', PdfObject ''9'' None)] None None"

definition ex_load_big :: reader where
  "ex_load_big =
     (new_reader ([CHR 0x0A] @ ''1 0 obj << /Length 9 >> stream'' @ [CHR 0x0A] @ ''hello'' @ [CHR 0x0A] @
                  ''endstream endobj'' @ pad))
       \<lparr>obj_offsets := [(1, 0) \<mapsto> 1],
        indirect_objects := [(1, 0) \<mapsto> PdfIndirect (1, 0)],
        deferred_objects := [(1, 0)]\<rparr>"

definition ex_empty_obj :: reader where
  "ex_empty_obj =
     (new_reader ([CHR 0x0A] @ ''1 0 obj endobj'' @ pad))
       \<lparr>obj_offsets := [(1, 0) \<mapsto> 1],
        indirect_objects := [(1, 0) \<mapsto> PdfIndirect (1, 0)],
        deferred_objects := [(1, 0)]\<rparr>"

definition ex_missing :: reader where
  \<comment> \<open>a reference \<open>1 0 R\<close> was seen, and no cross-reference section lists the object\<close>
  "ex_missing =
     (new_reader ''%PDF-1.3'')
       \<lparr>indirect_objects := [(1, 0) \<mapsto> PdfIndirect (1, 0)],
        deferred_objects := [(1, 0)]\<rparr>"

definition ex_stale_deferred :: reader where
  \<comment> \<open>the key \<open>(3, 0)\<close> is deferred and has no table entry, as after \<open>__init__\<close> has
      cleared the table while following \<open>/Prev\<close>\<close>
  "ex_stale_deferred = (new_reader ''%PDF-1.3'')\<lparr>deferred_objects := [(3, 0)]\<rparr>"

definition ex_load_ok :: reader where
  "ex_load_ok =
     (new_reader ([CHR 0x0A] @ ''1 0 obj << /Kind /Example >> endobj'' @ pad))
       \<lparr>obj_offsets := [(1, 0) \<mapsto> 1],
        indirect_objects := [(1, 0) \<mapsto> PdfIndirect (1, 0)],
        deferred_objects := [(1, 0)]\<rparr>"

definition ex_endless_data :: string where
  "ex_endless_data = [CHR 0x0A] @ ''1 0 obj [ endobj'' @ pad"

definition ex_endless :: reader where
  \<comment> \<open>the object \<open>1 0\<close> opens an array and ends at once\<close>
  "ex_endless =
     (new_reader ex_endless_data)
       \<lparr>obj_offsets := [(1, 0) \<mapsto> 1],
        indirect_objects := [(1, 0) \<mapsto> PdfIndirect (1, 0)],
        deferred_objects := [(1, 0)]\<rparr>"









section \<open>Notions used in the statements\<close>

fun is_PdfObject :: "pdfobj \<Rightarrow> bool" where
  "is_PdfObject (PdfObject s i) = True"
| "is_PdfObject _ = False"

definition substrings :: "string \<Rightarrow> string set" where
  "substrings s = {t. \<exists>a b. t = py_slice s a b}"

definition table_toks :: "reader \<Rightarrow> string set" where
  \<comment> \<open>the texts of the tokens that are table entries\<close>
  "table_toks st = {s. \<exists>k i. indirect_objects st k = Some (PdfObject s i)}"

definition tokset :: "reader \<Rightarrow> string set" where
  "tokset st = substrings (fdata st) \<union> table_toks st"

definition key_universe :: "reader \<Rightarrow> key set" where
  \<comment> \<open>the keys that \<open>findindirect\<close> can be asked for: both numbers are read off a piece
      of the buffer or off a token of the table\<close>
  "key_universe st =
     {k. \<exists>s t. s \<in> tokset st \<and> t \<in> tokset st \<and> py_int s = Some (fst k) \<and> py_int t = Some (snd k)}"

definition parse_rel :: "reader \<Rightarrow> reader \<Rightarrow> bool" where
  \<comment> \<open>what reading tokens and containers may change: the offset, and placeholders
      for keys that had no entry, which also join the deferred set\<close>
  "parse_rel st st' =
     (fdata st' = fdata st \<and> tokenizer st' = tokenizer st \<and> obj_offsets st' = obj_offsets st \<and>
      all_offsets st' = all_offsets st \<and>
      (\<forall>k. indirect_objects st' k \<noteq> indirect_objects st k \<longrightarrow>
           table_get st k = PyNone \<and> indirect_objects st' k = Some (PdfIndirect k) \<and>
           k \<in> key_universe st) \<and>
      (\<forall>k. k \<in> set (deferred_objects st) \<longrightarrow> k \<in> set (deferred_objects st')) \<and>
      (\<forall>k. k \<in> set (deferred_objects st') \<longrightarrow>
           k \<in> set (deferred_objects st) \<or> (table_get st k = PyNone \<and> k \<in> key_universe st)))"

definition misc_rel :: "reader \<Rightarrow> reader \<Rightarrow> bool" where
  \<comment> \<open>what reading tokens, seeking and logging may change: neither the buffer nor
      the tables\<close>
  "misc_rel st st' =
     (fdata st' = fdata st \<and> tokenizer st' = tokenizer st \<and> obj_offsets st' = obj_offsets st \<and>
      all_offsets st' = all_offsets st \<and> indirect_objects st' = indirect_objects st \<and>
      deferred_objects st' = deferred_objects st)"

definition good_acc :: "reader \<Rightarrow> pdfobj list \<Rightarrow> bool" where
  "good_acc st acc = (\<forall>s i. PdfObject s i \<in> set acc \<longrightarrow> s \<in> tokset st)"

definition parse_inv :: "nat \<Rightarrow> bool" where
  "parse_inv n =
     ((\<forall>st acc v st'. readarray n st acc = Inr (v, st') \<longrightarrow> good_acc st acc \<longrightarrow>
          parse_rel st st' \<and> (\<exists>xs. v = PdfArray xs None)) \<and>
      (\<forall>st tok d v st'. readdict_loop n st tok d = Inr (v, st') \<longrightarrow>
          parse_rel st st' \<and> (\<exists>es. v = PdfDict es None None)) \<and>
      (\<forall>f st v st'. call_special n f st = Inr (v, st') \<longrightarrow>
          parse_rel st st' \<and> \<not> is_PdfObject v \<and> \<not> is_PdfIndirect v))"

definition offset_of :: "reader \<Rightarrow> key \<Rightarrow> int" where
  "offset_of st k = (case obj_offsets st k of None \<Rightarrow> 0 | Some v \<Rightarrow> v)"

definition sweep_rel :: "reader \<Rightarrow> reader \<Rightarrow> bool" where
  \<comment> \<open>what loading objects may change, as far as the keys are concerned: every new
      key of the deferred set or of the table is in the key universe, which stays
      the same\<close>
  "sweep_rel st st' =
     (fdata st' = fdata st \<and> tokset st' = tokset st \<and>
      set (deferred_objects st') \<subseteq> set (deferred_objects st) \<union> key_universe st \<and>
      dom (indirect_objects st') \<subseteq> dom (indirect_objects st) \<union> key_universe st)"


definition setdefault_all :: "(key \<times> int) list \<Rightarrow> (key \<rightharpoonup> int) \<Rightarrow> (key \<rightharpoonup> int)" where
  \<comment> \<open>insert-if-absent of a list of entries, the first listed first\<close>
  "setdefault_all es m = foldl (\<lambda>m (k, v). setdefault k v m) m es"






section \<open>Properties of the byte-string operations and the token source\<close>

lemma startswith_length: "startswith s sub \<Longrightarrow> length sub \<le> length s"
proof -
  assume "startswith s sub"
  then have "length (take (length sub) s) = length sub" unfolding startswith_def by simp
  then show ?thesis by simp
qed

lemma find_aux_bounds:
  "find_aux sub s i = Some j \<Longrightarrow> i \<le> j \<and> j + length sub \<le> i + length s"
proof (induction s arbitrary: i)
  case Nil
  then show ?case by (simp split: if_splits)
next
  case (Cons c cs)
  show ?case
  proof (cases "startswith (c # cs) sub")
    case True
    from startswith_length[OF True] True Cons.prems show ?thesis by simp
  next
    case False
    with Cons.prems have "find_aux sub cs (Suc i) = Some j" by simp
    from Cons.IH[OF this] show ?thesis by simp
  qed
qed

lemma py_find_bounds:
  assumes "0 \<le> py_find s sub a b" and "0 \<le> a" and "sub \<noteq> []"
  shows "a \<le> py_find s sub a b \<and> py_find s sub a b + int (length sub) \<le> int (length s)"
proof -
  from assms(1) obtain j where fa: "find_aux sub (py_slice s a b) (norm_index s a) = Some j"
    and r: "py_find s sub a b = int j"
    unfolding py_find_def by (auto split: if_splits option.splits)
  from find_aux_bounds[OF fa]
  have b: "norm_index s a \<le> j" "j + length sub \<le> norm_index s a + length (py_slice s a b)"
    by auto
  have na: "norm_index s a = min (nat a) (length s)" using assms(2) by (simp add: norm_index_def)
  have ls: "length (py_slice s a b) \<le> length s - norm_index s a"
    unfolding py_slice_def by simp
  with b na have j1: "j + length sub \<le> length s" by linarith
  have "nat a \<le> length s"
  proof (rule ccontr)
    assume "\<not> nat a \<le> length s"
    then have "norm_index s a = length s" using na by simp
    with ls have "length (py_slice s a b) = 0" by simp
    with b \<open>norm_index s a = length s\<close> have "length sub = 0" by linarith
    with assms(3) show False by simp
  qed
  with na b(1) have "nat a \<le> j" by simp
  with assms(2) j1 r show ?thesis by linarith
qed

lemma next_tok_Inr:
  "next_tok st = Inr (t, st') \<Longrightarrow>
     \<exists>a b. tokenizer st (fdata st) (floc st) = Some (a, b) \<and> 0 \<le> a \<and> floc st \<le> a \<and> a < b \<and>
           b \<le> int (length (fdata st)) \<and> t = py_slice (fdata st) a b \<and>
           st' = st\<lparr>tokstart := a, floc := b\<rparr>"
  unfolding next_tok_def by (simp split: option.splits prod.splits if_splits)

lemma next_tok_logged: "next_tok st = Inr (t, st') \<Longrightarrow> logged st' = logged st"
  by (drule next_tok_Inr) auto

lemma next_tok_floc_bound: "next_tok st = Inr (t, st') \<Longrightarrow> floc st < int (length (fdata st))"
  by (drule next_tok_Inr) auto

lemma multiple_logged: "multiple n st = (ts, st') \<Longrightarrow> logged st' = logged st"
proof (induction n arbitrary: st ts st')
  case 0
  then show ?case by simp
next
  case (Suc n)
  show ?case
  proof (cases "next_tok st")
    case (Inl e)
    with Suc.prems show ?thesis by simp
  next
    case (Inr p)
    obtain t st1 where p: "p = (t, st1)" by (cases p)
    obtain ts1 st2 where m: "multiple n st1 = (ts1, st2)" by (cases "multiple n st1")
    from Suc.prems Inr p m have e: "st' = st2" by simp
    from next_tok_logged Inr p have "logged st1 = logged st" by blast
    with Suc.IH[OF m] e show ?thesis by simp
  qed
qed

lemma multiple_nonempty_floc:
  assumes "fst (multiple (Suc n) st) \<noteq> []"
  shows "floc st < int (length (fdata st))"
proof (cases "next_tok st")
  case (Inl e)
  with assms show ?thesis by simp
next
  case (Inr p)
  obtain t st1 where p: "p = (t, st1)" by (cases p)
  from next_tok_floc_bound Inr p show ?thesis by blast
qed

lemma norm_index_nonneg: "0 \<le> i \<Longrightarrow> norm_index s i = min (nat i) (length s)"
  by (simp add: norm_index_def)

lemma py_slice_nonneg:
  "0 \<le> a \<Longrightarrow> a \<le> b \<Longrightarrow> b \<le> int (length s) \<Longrightarrow>
     py_slice s a b = take (nat (b - a)) (drop (nat a) s)"
proof -
  assume h: "0 \<le> a" "a \<le> b" "b \<le> int (length s)"
  then have "norm_index s a = nat a" "norm_index s b = nat b"
    by (simp_all add: norm_index_nonneg)
  moreover from h have "nat b - nat a = nat (b - a)" by linarith
  ultimately show ?thesis by (simp add: py_slice_def)
qed


lemma set_floc_simps [simp]:
  "floc (set_floc p st) = p" "fdata (set_floc p st) = fdata st"
  "logged (set_floc p st) = logged st"
  by (simp_all add: set_floc_def)

lemma logged_warning [simp]: "logged (warning m st) = logged st @ [(Warning, m)]"
  by (simp add: warning_def)

lemma logged_log_error [simp]: "logged (log_error m st) = logged st @ [(Error, m)]"
  by (simp add: log_error_def)

section \<open>Stream extraction\<close>

text \<open>
  Claim C4. When \<open>/Length\<close> is a correct integer, that is a token that reads as a
  number \<open>len \<ge> 0\<close> such that the two tokens found at \<open>startstream + len\<close> are
  \<open>endstream\<close> and \<open>endobj\<close>, \<open>readstream\<close> returns normally, the payload stored in
  the object is exactly the \<open>len\<close> bytes of the buffer from \<open>startstream\<close> on, and
  nothing is logged.
\<close>

theorem readstream_correct_length:
  assumes len: "py_int_obj (obj_Length (PdfDict es i s)) = Inr len"
    and nonneg: "0 \<le> len" "0 \<le> startstream"
    and ending: "fst (multiple 2 (set_floc (startstream + len) st)) = streamending"
  shows "\<exists>st'. readstream (PdfDict es i s) startstream st =
            Inr (PdfDict es i (Some (take (nat len) (drop (nat startstream) (fdata st)))), st') \<and>
          length (take (nat len) (drop (nat startstream) (fdata st))) = nat len \<and>
          logged st' = logged st"
proof -
  obtain endit st1 where m: "multiple 2 (set_floc (startstream + len) st) = (endit, st1)"
    by (cases "multiple 2 (set_floc (startstream + len) st)")
  with ending have e: "endit = streamending" by simp
  then have "fst (multiple (Suc 1) (set_floc (startstream + len) st)) \<noteq> []"
    using m by (simp add: streamending_def numeral_2_eq_2)
  from multiple_nonempty_floc[OF this]
  have bound: "startstream + len < int (length (fdata st))" by simp
  with nonneg have sl: "py_slice (fdata st) startstream (startstream + len) =
      take (nat len) (drop (nat startstream) (fdata st))"
    by (simp add: py_slice_nonneg)
  from multiple_logged[OF m] have lg: "logged st1 = logged st" by simp
  have "readstream (PdfDict es i s) startstream st =
          Inr (PdfDict es i (Some (take (nat len) (drop (nat startstream) (fdata st)))), st1)"
    using len m e sl by (simp add: readstream_def Let_def)
  moreover from bound nonneg
  have "length (take (nat len) (drop (nat startstream) (fdata st))) = nat len" by simp
  ultimately show ?thesis using lg by blast
qed

theorem readstream_correct_length_witness:
  "py_int_obj (obj_Length ex_len5) = Inr 5 \<and>
   fst (multiple 2 (set_floc (23 + 5) ex_stream_ok)) = streamending \<and>
   (\<exists>st'. readstream ex_len5 23 ex_stream_ok =
            Inr (PdfDict [(''/Length'', PdfObject ''5'' None)] None (Some ''hello''), st') \<and>
          logged st' = [])"
proof -
  have h1: "py_int_obj (obj_Length (PdfDict [(''/Length'', PdfObject ''5'' None)] None None)) = Inr 5"
    by code_simp
  have h2: "fst (multiple 2 (set_floc (23 + 5) ex_stream_ok)) = streamending"
    by code_simp
  have p: "take (nat 5) (drop (nat 23) (fdata ex_stream_ok)) = ''hello''" by code_simp
  have l: "logged ex_stream_ok = []" by code_simp
  from readstream_correct_length[OF h1 _ _ h2]
  obtain st' where r: "readstream (PdfDict [(''/Length'', PdfObject ''5'' None)] None None) 23 ex_stream_ok =
      Inr (PdfDict [(''/Length'', PdfObject ''5'' None)] None
            (Some (take (nat 5) (drop (nat 23) (fdata ex_stream_ok)))), st')"
    and g: "logged st' = logged ex_stream_ok"
    by auto
  from r p have "readstream ex_len5 23 ex_stream_ok =
      Inr (PdfDict [(''/Length'', PdfObject ''5'' None)] None (Some ''hello''), st')"
    by (simp only: ex_len5_def)
  moreover from g l have "logged st' = []" by simp
  moreover from h1 have "py_int_obj (obj_Length ex_len5) = Inr 5" by (simp only: ex_len5_def)
  ultimately show ?thesis using h2 by blast
qed


text \<open>
  Claim C6, as amended. When the two tokens at the declared end are not
  \<open>endstream endobj\<close>, a literal \<open>endstream\<close> is found, the one-byte shift does not
  apply and the declared length exceeds the distance to it, \<open>readstream\<close> records one
  error, stores the shorter payload that ends at the \<open>endstream\<close> found, and returns
  normally: the error is recorded, not raised.
\<close>

theorem readstream_too_big:
  assumes len: "py_int_obj (obj_Length (PdfDict es i s)) = Inr len"
    and nonneg: "0 \<le> startstream"
    and ending: "fst (multiple 2 (set_floc (startstream + len) st)) \<noteq> streamending"
    and found: "0 \<le> py_find (fdata st) ''endstream'' startstream (int (length (fdata st)) - 20)"
    and noshift: "\<not> (len = py_find (fdata st) ''endstream'' startstream (int (length (fdata st)) - 20)
                 - startstream + 1 \<and>
               py_slice (fdata st) (startstream - 2) startstream = [CHR 0x0D, CHR 0x0A])"
    and big: "len > py_find (fdata st) ''endstream'' startstream (int (length (fdata st)) - 20)
                 - startstream"
  shows "\<exists>st'. readstream (PdfDict es i s) startstream st =
            Inr (PdfDict es i (Some (py_slice (fdata st) startstream
                   (py_find (fdata st) ''endstream'' startstream (int (length (fdata st)) - 20)))), st') \<and>
          int (length (py_slice (fdata st) startstream
                   (py_find (fdata st) ''endstream'' startstream (int (length (fdata st)) - 20)))) < len \<and>
          logged st' = logged st @ [(Error, ''stream /Length attribute appears to be too big'')]"
proof -
  let ?e = "py_find (fdata st) ''endstream'' startstream (int (length (fdata st)) - 20)"
  obtain endit st1 where m: "multiple 2 (set_floc (startstream + len) st) = (endit, st1)"
    by (cases "multiple 2 (set_floc (startstream + len) st)")
  with ending have e: "endit \<noteq> streamending" by simp
  from multiple_logged[OF m] have lg: "logged st1 = logged st" by simp
  from py_find_bounds[OF found nonneg] have fb: "startstream \<le> ?e" "?e + 9 \<le> int (length (fdata st))"
    by simp_all
  have "py_slice (fdata st) startstream ?e = take (nat (?e - startstream)) (drop (nat startstream) (fdata st))"
    using nonneg fb by (intro py_slice_nonneg) linarith+
  then have ln: "int (length (py_slice (fdata st) startstream ?e)) < len"
    using big fb nonneg by simp
  have "readstream (PdfDict es i s) startstream st =
          Inr (PdfDict es i (Some (py_slice (fdata st) startstream ?e)),
               log_error ''stream /Length attribute appears to be too big''
                 (set_floc ?e (set_floc startstream (st1\<lparr>warned_bad_stream_end := False\<rparr>))))"
  proof (cases "len = ?e - startstream + 1")
    case True
    with noshift have "py_slice (fdata st) (startstream - 2) startstream \<noteq> [CHR 0x0D, CHR 0x0A]"
      by simp
    with len m e found big show ?thesis by (simp add: readstream_def Let_def)
  next
    case False
    with len m e found big show ?thesis by (simp add: readstream_def Let_def)
  qed
  then show ?thesis using lg ln by (simp add: set_floc_def)
qed


theorem readstream_too_big_witness:
  "py_int_obj (obj_Length ex_len9) = Inr 9 \<and>
   fst (multiple 2 (set_floc (23 + 9) ex_stream_big)) \<noteq> streamending \<and>
   py_find (fdata ex_stream_big) ''endstream'' 23 (int (length (fdata ex_stream_big)) - 20) = 29 \<and>
   (\<exists>st'. readstream ex_len9 23 ex_stream_big =
            Inr (PdfDict [(''/Length'', PdfObject ''9'' None)] None
                   (Some (''hello'' @ [CHR 0x0A])), st') \<and>
          logged st' = [(Error, ''stream /Length attribute appears to be too big'')])"
proof -
  have h1: "py_int_obj (obj_Length (PdfDict [(''/Length'', PdfObject ''9'' None)] None None)) = Inr 9"
    by code_simp
  have h2: "fst (multiple 2 (set_floc (23 + 9) ex_stream_big)) \<noteq> streamending"
    by code_simp
  have h3: "py_find (fdata ex_stream_big) ''endstream'' 23 (int (length (fdata ex_stream_big)) - 20) = 29"
    by code_simp
  have p: "py_slice (fdata ex_stream_big) 23 29 = ''hello'' @ [CHR 0x0A]"
    by code_simp
  have l: "logged ex_stream_big = []" by code_simp
  have h5: "(0::int) \<le> 23" by simp
  have h6: "0 \<le> py_find (fdata ex_stream_big) ''endstream'' 23 (int (length (fdata ex_stream_big)) - 20)"
    by (simp only: h3)
  have h7: "\<not> (9 = py_find (fdata ex_stream_big) ''endstream'' 23 (int (length (fdata ex_stream_big)) - 20) - 23 + 1 \<and>
          py_slice (fdata ex_stream_big) (23 - 2) 23 = [CHR 0x0D, CHR 0x0A])"
    by (simp add: h3)
  have h8: "9 > py_find (fdata ex_stream_big) ''endstream'' 23 (int (length (fdata ex_stream_big)) - 20) - 23"
    by (simp add: h3)
  from readstream_too_big[OF h1 h5 h2 h6 h7 h8]
  obtain st' where r: "readstream (PdfDict [(''/Length'', PdfObject ''9'' None)] None None) 23 ex_stream_big =
      Inr (PdfDict [(''/Length'', PdfObject ''9'' None)] None
            (Some (py_slice (fdata ex_stream_big) 23
               (py_find (fdata ex_stream_big) ''endstream'' 23 (int (length (fdata ex_stream_big)) - 20)))), st')"
    and g: "logged st' = logged ex_stream_big @ [(Error, ''stream /Length attribute appears to be too big'')]"
    by auto
  from r have "readstream ex_len9 23 ex_stream_big =
      Inr (PdfDict [(''/Length'', PdfObject ''9'' None)] None
             (Some (''hello'' @ [CHR 0x0A])), st')"
    by (simp only: ex_len9_def h3 p)
  moreover from g l have "logged st' = [(Error, ''stream /Length attribute appears to be too big'')]" by simp
  moreover from h1 have "py_int_obj (obj_Length ex_len9) = Inr 9" by (simp only: ex_len9_def)
  ultimately show ?thesis using h2 h3 by blast
qed

text \<open>
  Claim C6 as stated fails: an object whose \<open>/Length\<close> is 9 while \<open>endstream\<close> follows
  6 bytes after the payload start is loaded without any exception; \<open>loadindirect\<close>
  returns the object with the 6 bytes, and the log holds the one error.
\<close>

theorem length_too_big_not_fatal_counterexample:
  "(case loadindirect 10 (1, 0) ex_load_big of
      Inl e \<Rightarrow> False
    | Inr (obj, st') \<Rightarrow>
        obj = PdfDict [(''/Length'', PdfObject ''9'' None)] (Some (1, 0)) (Some (''hello'' @ [CHR 0x0A])) \<and>
        logged st' = [(Error, ''stream /Length attribute appears to be too big'')])"
  by code_simp

section \<open>Empty objects\<close>

lemma read_body_empty_obj:
  assumes "next_tok st = Inr (''endobj'', st1)" and "k \<in> set (deferred_objects st)"
  shows "read_body (Suc n) k st = Inl AttributeError"
proof -
  from next_tok_Inr[OF assms(1)] have "deferred_objects st1 = deferred_objects st" by auto
  with assms show ?thesis
    by (simp add: read_body_def read_value_def special_get_def empty_obj_def deferred_remove_def set_floc_def)
qed

text \<open>
  Claim C7 fails on the code. For the document \<open>1 0 obj endobj\<close>, \<open>empty_obj\<close> moves
  the offset back and returns \<open>None\<close>; \<open>loadindirect\<close> stores that \<open>None\<close> in the table
  and then executes \<open>obj.indirect = key\<close> on it, which raises \<open>AttributeError\<close>, for
  every bound on the container parser.
\<close>

theorem empty_object_load_raises:
  "loadindirect (Suc n) (1, 0) ex_empty_obj = Inl AttributeError"
proof -
  obtain objid st1 where m: "multiple 3 (set_floc 1 ex_empty_obj) = (objid, st1)"
    by (cases "multiple 3 (set_floc 1 ex_empty_obj)")
  have "header_ok (fst (multiple 3 (set_floc 1 ex_empty_obj))) (1, 0)" by code_simp
  with m have ok: "header_ok objid (1, 0)" by simp
  have "(case next_tok (snd (multiple 3 (set_floc 1 ex_empty_obj))) of
           Inl e \<Rightarrow> [] | Inr (t, s) \<Rightarrow> t) = ''endobj''"
    by code_simp
  with m obtain st2 where nx: "next_tok st1 = Inr (''endobj'', st2)"
    by (auto split: sum.splits)
  have "deferred_objects (snd (multiple 3 (set_floc 1 ex_empty_obj))) = [(1, 0)]" by code_simp
  with m have "(1, 0) \<in> set (deferred_objects st1)" by simp
  from read_body_empty_obj[OF nx this] have rb: "read_body (Suc n) (1, 0) st1 = Inl AttributeError" .
  have tg: "table_get ex_empty_obj (1, 0) = PdfIndirect (1, 0)"
    by (simp add: table_get_def ex_empty_obj_def)
  have off: "obj_offsets ex_empty_obj (1, 0) = Some 1"
    by (simp add: ex_empty_obj_def)
  show ?thesis using tg off m ok rb by (simp add: loadindirect_def)
qed

section \<open>Repeating \<open>read_all\<close>\<close>

lemma loadindirect_cached:
  "\<not> is_PdfIndirect (table_get st k) \<Longrightarrow> loadindirect n k st = Inr (table_get st k, st)"
  by (simp add: loadindirect_def)

lemma load_keys_cached:
  "\<forall>k \<in> set ks. \<not> is_PdfIndirect (table_get st k) \<Longrightarrow> load_keys n ks st = (ks, Inr st)"
  by (induction ks) (simp_all add: loadindirect_cached)

text \<open>
  Claim C9, as amended. \<open>read_all\<close> leaves the loader state as it is whenever no key
  of the deferred set still has a placeholder in the table, in particular when the
  deferred set is empty: the keys are handed to \<open>loadindirect\<close>, which returns at once.
  A key whose load failed keeps its placeholder and stays deferred, and a repeat
  call attempts it again.
\<close>

theorem read_all_repeat_noop:
  assumes "\<forall>k \<in> set (deferred_objects st). \<not> is_PdfIndirect (table_get st k)"
  shows "\<exists>tr. read_all (Suc (Suc f)) n st = Some (tr, Inr st)"
proof -
  let ?new = "remdups (filter (\<lambda>k. k \<notin> {}) (deferred_objects st))"
  have s: "set ?new = set (deferred_objects st)" by simp
  with assms have "\<forall>k \<in> set ?new. \<not> is_PdfIndirect (table_get st k)" by simp
  from load_keys_cached[OF this] have lk: "load_keys n ?new st = (?new, Inr st)" .
  have z: "remdups (filter (\<lambda>k. k \<notin> {} \<union> set (deferred_objects st)) (deferred_objects st)) = []"
    by simp
  show ?thesis
  proof (cases "?new = []")
    case True
    then show ?thesis by (simp add: read_all_def)
  next
    case False
    have "read_all (Suc (Suc f)) n st =
            read_all_loop (Suc f) n ({} \<union> set (deferred_objects st)) ([] @ ?new) st"
      unfolding read_all_def using False lk by (simp only: read_all_loop.simps Let_def if_False prod.case sum.case)
    also have "\<dots> = Some ([] @ ?new, Inr st)"
      by (simp add: Let_def)
    finally show ?thesis by blast
  qed
qed

theorem read_all_repeat_noop_witness:
  "deferred_objects ex_stale_deferred = [(3, 0)] \<and>
   \<not> is_PdfIndirect (table_get ex_stale_deferred (3, 0)) \<and>
   (\<exists>tr. read_all (Suc (Suc 0)) 5 ex_stale_deferred = Some (tr, Inr ex_stale_deferred))"
proof -
  have d: "deferred_objects ex_stale_deferred = [(3, 0)]"
    by (simp add: ex_stale_deferred_def new_reader_def)
  have t: "\<not> is_PdfIndirect (table_get ex_stale_deferred (3, 0))"
    by (simp add: ex_stale_deferred_def new_reader_def table_get_def)
  from d t have h: "\<forall>k \<in> set (deferred_objects ex_stale_deferred).
      \<not> is_PdfIndirect (table_get ex_stale_deferred k)"
    by simp
  from read_all_repeat_noop[OF h] d t show ?thesis by blast
qed

text \<open>
  Claim C9 as stated fails: with a deferred key that no cross-reference section
  lists, the first \<open>read_all\<close> logs one warning and the repeat call hands the key
  to \<open>loadindirect\<close> again and logs a second one.
\<close>

theorem read_all_repeat_warns_counterexample:
  "(case read_all 5 5 ex_missing of
      Some (tr1, Inr st1) \<Rightarrow>
        (case read_all 5 5 st1 of
           Some (tr2, Inr st2) \<Rightarrow>
             tr2 = [(1, 0)] \<and>
             logged st1 = [(Warning, ''Did not find PDF object'')] \<and>
             logged st2 = [(Warning, ''Did not find PDF object''), (Warning, ''Did not find PDF object'')]
         | _ \<Rightarrow> False)
    | _ \<Rightarrow> False)"
  by code_simp

section \<open>What container parsing changes\<close>

lemma parse_rel_refl: "parse_rel st st"
  by (simp add: parse_rel_def)

lemma parse_rel_table_toks:
  assumes "parse_rel st st'" shows "table_toks st' = table_toks st"
proof (rule set_eqI)
  fix s
  from assms have c: "\<And>k. indirect_objects st' k \<noteq> indirect_objects st k \<Longrightarrow>
      table_get st k = PyNone \<and> indirect_objects st' k = Some (PdfIndirect k)"
    unfolding parse_rel_def by blast
  show "s \<in> table_toks st' \<longleftrightarrow> s \<in> table_toks st"
  proof
    assume "s \<in> table_toks st'"
    then obtain k i where e: "indirect_objects st' k = Some (PdfObject s i)"
      unfolding table_toks_def by blast
    have "indirect_objects st' k = indirect_objects st k"
    proof (rule ccontr)
      assume "indirect_objects st' k \<noteq> indirect_objects st k"
      from c[OF this] e show False by simp
    qed
    with e have "indirect_objects st k = Some (PdfObject s i)" by simp
    then show "s \<in> table_toks st" unfolding table_toks_def by blast
  next
    assume "s \<in> table_toks st"
    then obtain k i where e: "indirect_objects st k = Some (PdfObject s i)"
      unfolding table_toks_def by blast
    have "indirect_objects st' k = indirect_objects st k"
    proof (rule ccontr)
      assume "indirect_objects st' k \<noteq> indirect_objects st k"
      from c[OF this] e show False by (simp add: table_get_def)
    qed
    with e have "indirect_objects st' k = Some (PdfObject s i)" by simp
    then show "s \<in> table_toks st'" unfolding table_toks_def by blast
  qed
qed

lemma parse_rel_tokset: "parse_rel st st' \<Longrightarrow> tokset st' = tokset st"
  using parse_rel_table_toks[of st st'] by (simp add: tokset_def parse_rel_def)

lemma parse_rel_universe: "parse_rel st st' \<Longrightarrow> key_universe st' = key_universe st"
  using parse_rel_tokset[of st st'] by (simp add: key_universe_def)

lemma parse_rel_trans:
  assumes a: "parse_rel st st1" and b: "parse_rel st1 st2"
  shows "parse_rel st st2"
proof -
  note u = parse_rel_universe[OF a]
  have ta: "\<And>k. indirect_objects st1 k \<noteq> indirect_objects st k \<Longrightarrow>
      table_get st k = PyNone \<and> indirect_objects st1 k = Some (PdfIndirect k) \<and> k \<in> key_universe st"
    using a unfolding parse_rel_def by blast
  have tb: "\<And>k. indirect_objects st2 k \<noteq> indirect_objects st1 k \<Longrightarrow>
      table_get st1 k = PyNone \<and> indirect_objects st2 k = Some (PdfIndirect k) \<and> k \<in> key_universe st"
    using b u unfolding parse_rel_def by blast
  have da: "\<And>k. k \<in> set (deferred_objects st1) \<Longrightarrow>
      k \<in> set (deferred_objects st) \<or> (table_get st k = PyNone \<and> k \<in> key_universe st)"
    using a unfolding parse_rel_def by blast
  have db: "\<And>k. k \<in> set (deferred_objects st2) \<Longrightarrow>
      k \<in> set (deferred_objects st1) \<or> (table_get st1 k = PyNone \<and> k \<in> key_universe st)"
    using b u unfolding parse_rel_def by blast
  have none: "\<And>k. table_get st1 k = PyNone \<Longrightarrow> table_get st k = PyNone"
  proof -
    fix k assume h: "table_get st1 k = PyNone"
    show "table_get st k = PyNone"
    proof (cases "indirect_objects st1 k = indirect_objects st k")
      case True with h show ?thesis by (simp add: table_get_def)
    next
      case False from ta[OF this] show ?thesis by simp
    qed
  qed
  have t: "\<forall>k. indirect_objects st2 k \<noteq> indirect_objects st k \<longrightarrow>
      table_get st k = PyNone \<and> indirect_objects st2 k = Some (PdfIndirect k) \<and> k \<in> key_universe st"
  proof (intro allI impI)
    fix k assume h: "indirect_objects st2 k \<noteq> indirect_objects st k"
    show "table_get st k = PyNone \<and> indirect_objects st2 k = Some (PdfIndirect k) \<and> k \<in> key_universe st"
    proof (cases "indirect_objects st2 k = indirect_objects st1 k")
      case True
      with h have "indirect_objects st1 k \<noteq> indirect_objects st k" by simp
      from ta[OF this] True show ?thesis by simp
    next
      case False
      from tb[OF False] none show ?thesis by blast
    qed
  qed
  have d: "\<forall>k. k \<in> set (deferred_objects st2) \<longrightarrow>
      k \<in> set (deferred_objects st) \<or> (table_get st k = PyNone \<and> k \<in> key_universe st)"
    using da db none by blast
  from a b t d show ?thesis unfolding parse_rel_def by simp
qed

lemma next_tok_rel:
  assumes "next_tok st = Inr (t, st1)"
  shows "parse_rel st st1" and "t \<in> tokset st"
proof -
  from next_tok_Inr[OF assms] obtain a b where
    t: "t = py_slice (fdata st) a b" and s: "st1 = st\<lparr>tokstart := a, floc := b\<rparr>" by blast
  from s show "parse_rel st st1" by (simp add: parse_rel_def table_get_def)
  from t show "t \<in> tokset st" unfolding tokset_def substrings_def by blast
qed

lemma good_acc_rel: "good_acc st acc \<Longrightarrow> parse_rel st st' \<Longrightarrow> good_acc st' acc"
  by (simp add: good_acc_def parse_rel_tokset)

lemma py_int_obj_Inr: "py_int_obj x = Inr n \<Longrightarrow> \<exists>s i. x = PdfObject s i \<and> py_int s = Some n"
  by (cases x) (auto split: option.splits)

lemma findindirect_rel:
  assumes f: "findindirect a b st = Inr (v, st1)"
    and ga: "\<forall>s i. a = PdfObject s i \<longrightarrow> s \<in> tokset st"
    and gb: "\<forall>s i. b = PdfObject s i \<longrightarrow> s \<in> tokset st"
  shows "parse_rel st st1" and "\<forall>s i. v = PdfObject s i \<longrightarrow> s \<in> tokset st"
proof -
  from f obtain n where n: "py_int_obj a = Inr n"
    unfolding findindirect_def by (cases "py_int_obj a") auto
  from f n obtain g where g: "py_int_obj b = Inr g"
    unfolding findindirect_def by (cases "py_int_obj b") auto
  from py_int_obj_Inr[OF n] ga obtain s where s: "s \<in> tokset st" "py_int s = Some n" by blast
  from py_int_obj_Inr[OF g] gb obtain t where t: "t \<in> tokset st" "py_int t = Some g" by blast
  from s t have ku: "(n, g) \<in> key_universe st" unfolding key_universe_def by auto
  show "parse_rel st st1"
  proof (cases "table_get st (n, g) = PyNone")
    case True
    with f n g have "st1 = st\<lparr>indirect_objects := (indirect_objects st)((n, g) \<mapsto> PdfIndirect (n, g)),
                                deferred_objects := deferred_add (n, g) (deferred_objects st)\<rparr>"
      unfolding findindirect_def by (auto simp: Let_def)
    with True ku show ?thesis by (simp add: parse_rel_def deferred_add_def)
  next
    case False
    with f n g have "st1 = st" unfolding findindirect_def by (auto simp: Let_def)
    then show ?thesis by (simp add: parse_rel_refl)
  qed
  show "\<forall>s i. v = PdfObject s i \<longrightarrow> s \<in> tokset st"
  proof (intro allI impI)
  fix s' i' assume v: "v = PdfObject s' i'"
  show "s' \<in> tokset st"
  proof (cases "table_get st (n, g) = PyNone")
    case True
    with f n g v show ?thesis unfolding findindirect_def by (auto simp: Let_def)
  next
    case False
    with f n g have "v = table_get st (n, g)" unfolding findindirect_def by (auto simp: Let_def)
    with v have "indirect_objects st (n, g) = Some (PdfObject s' i')"
      by (simp add: table_get_def split: option.splits)
    then show ?thesis unfolding tokset_def table_toks_def by blast
  qed
  qed
qed

lemma readarray_SucE [consumes 1, case_names Eof Close Ref Plain Special]:
  assumes "readarray (Suc n) st acc = Inr (v, st')"
  obtains e where "next_tok st = Inl e" "v = PdfArray acc None" "st' = st"
  | t where "next_tok st = Inr (t, st')" "v = PdfArray acc None"
  | t st1 val st2 where "next_tok st = Inr (t, st1)" "acc \<noteq> []" "butlast acc \<noteq> []"
      "findindirect (last (butlast acc)) (last acc) st1 = Inr (val, st2)"
      "readarray n st2 (butlast (butlast acc) @ [val]) = Inr (v, st')"
  | t st1 where "next_tok st = Inr (t, st1)"
      "readarray n st1 (acc @ [PdfObject t None]) = Inr (v, st')"
  | t st1 func val st2 where "next_tok st = Inr (t, st1)"
      "call_special n func st1 = Inr (val, st2)"
      "readarray n st2 (acc @ [val]) = Inr (v, st')"
proof (cases "next_tok st")
  case (Inl e)
  with assms have "v = PdfArray acc None" "st' = st" by simp_all
  with Inl show ?thesis by (rule that(1))
next
  case (Inr p)
  obtain t st1 where p: "p = (t, st1)" by (cases p)
  note nt = Inr[unfolded p]
  show ?thesis
  proof (cases "t \<in> set [[], '']'', ''R'', '']R'']")
    case True
    note m = True
    show ?thesis
    proof (cases "t = '']''")
      case True
      with assms nt have "next_tok st = Inr (t, st')" "v = PdfArray acc None" by simp_all
      then show ?thesis by (rule that(2))
    next
      case False
      with assms nt m have ne: "acc \<noteq> []" "butlast acc \<noteq> []"
        by (auto split: if_splits)
      with assms nt m False obtain val st2 where
        "findindirect (last (butlast acc)) (last acc) st1 = Inr (val, st2)"
        "readarray n st2 (butlast (butlast acc) @ [val]) = Inr (v, st')"
        by (cases "findindirect (last (butlast acc)) (last acc) st1") auto
      with nt ne show ?thesis by (rule that(3))
    qed
  next
    case False
    note m = False
    show ?thesis
    proof (cases "special_get t")
      case None
      with assms nt m have "readarray n st1 (acc @ [PdfObject t None]) = Inr (v, st')" by simp
      with nt show ?thesis by (rule that(4))
    next
      case (Some func)
      with assms nt m obtain val st2 where
        "call_special n func st1 = Inr (val, st2)"
        "readarray n st2 (acc @ [val]) = Inr (v, st')"
        by (cases "call_special n func st1") auto
      with nt show ?thesis by (rule that(5))
    qed
  qed
qed

lemma readdict_loop_SucE [consumes 1, case_names Close Special Ref Plain]:
  assumes "readdict_loop (Suc n) st tok d = Inr (v, st')"
  obtains "v = PdfDict d None None" "st' = st"
  | t st1 func val st2 tok' st3 where "next_tok st = Inr (t, st1)"
      "call_special n func st1 = Inr (val, st2)" "next_tok st2 = Inr (tok', st3)"
      "readdict_loop n st3 tok' (dict_setitem d tok val) = Inr (v, st')"
  | t st1 tok1 st2 r st3 val st4 tok' st5 where "next_tok st = Inr (t, st1)"
      "next_tok st1 = Inr (tok1, st2)" "next_tok st2 = Inr (r, st3)"
      "findindirect (PdfObject t None) (PdfObject tok1 None) st3 = Inr (val, st4)"
      "next_tok st4 = Inr (tok', st5)"
      "readdict_loop n st5 tok' (dict_setitem d tok val) = Inr (v, st')"
  | t st1 tok1 st2 where "next_tok st = Inr (t, st1)" "next_tok st1 = Inr (tok1, st2)"
      "readdict_loop n st2 tok1 (dict_setitem d tok (PdfObject t None)) = Inr (v, st')"
proof (cases "tok = ''>>''")
  case True
  with assms have "v = PdfDict d None None" "st' = st" by simp_all
  then show ?thesis by (rule that(1))
next
  case False
  note nclose = False
  from assms nclose have sw: "startswith tok ''/''" by (auto split: if_splits)
  from assms nclose sw obtain t st1 where nt: "next_tok st = Inr (t, st1)"
    by (cases "next_tok st") auto
  show ?thesis
  proof (cases "special_get t")
    case (Some func)
    with assms nclose sw nt obtain val st2 where cs: "call_special n func st1 = Inr (val, st2)"
      by (cases "call_special n func st1") auto
    with assms nclose sw nt Some obtain tok' st3 where n2: "next_tok st2 = Inr (tok', st3)"
      by (cases "next_tok st2") auto
    with assms nclose sw nt Some cs
    have "readdict_loop n st3 tok' (dict_setitem d tok val) = Inr (v, st')" by simp
    with nt cs n2 show ?thesis by (rule that(2))
  next
    case None
    with assms nclose sw nt obtain tok1 st2 where n1: "next_tok st1 = Inr (tok1, st2)"
      by (cases "next_tok st1") auto
    show ?thesis
    proof (cases "isdigit t \<and> isdigit tok1")
      case False
      with assms nclose sw nt None n1
      have "readdict_loop n st2 tok1 (dict_setitem d tok (PdfObject t None)) = Inr (v, st')"
        by auto
      with nt n1 show ?thesis by (rule that(4))
    next
      case True
      with assms nclose sw nt None n1 obtain r st3 where n2: "next_tok st2 = Inr (r, st3)"
        by (cases "next_tok st2") auto
      with assms nclose sw nt None n1 True have r: "r = ''R''" by (auto split: if_splits)
      with assms nclose sw nt None n1 True n2 obtain val st4 where
        fi: "findindirect (PdfObject t None) (PdfObject tok1 None) st3 = Inr (val, st4)"
        by (cases "findindirect (PdfObject t None) (PdfObject tok1 None) st3") auto
      with assms nclose sw nt None n1 True n2 r obtain tok' st5 where
        n4: "next_tok st4 = Inr (tok', st5)"
        by (cases "next_tok st4") auto
      with assms nclose sw nt None n1 True n2 r fi
      have "readdict_loop n st5 tok' (dict_setitem d tok val) = Inr (v, st')" by simp
      with nt n1 n2 fi n4 show ?thesis by (rule that(3))
    qed
  qed
qed

lemma call_special_SucE [consumes 1, case_names Readdict Readarray Empty_obj]:
  assumes "call_special (Suc n) f st = Inr (v, st')"
  obtains tok st1 where "next_tok st = Inr (tok, st1)" "readdict_loop n st1 tok [] = Inr (v, st')"
  | "readarray n st [] = Inr (v, st')"
  | "v = PyNone" "st' = set_floc (tokstart st) st"
proof (cases f)
  case Readdict
  with assms obtain tok st1 where "next_tok st = Inr (tok, st1)"
    "readdict_loop n st1 tok [] = Inr (v, st')"
    by (cases "next_tok st") auto
  then show ?thesis by (rule that(1))
next
  case Readarray
  with assms have "readarray n st [] = Inr (v, st')" by simp
  then show ?thesis by (rule that(2))
next
  case Empty_obj
  with assms have "v = PyNone" "st' = set_floc (tokstart st) st" by (auto simp: empty_obj_def)
  then show ?thesis by (rule that(3))
next
  case Badtoken
  with assms show ?thesis by (simp add: badtoken_def)
qed

lemma good_acc_Nil: "good_acc st []"
  by (simp add: good_acc_def)

lemma good_acc_snoc:
  "good_acc st acc \<Longrightarrow> \<forall>s i. x = PdfObject s i \<longrightarrow> s \<in> tokset st \<Longrightarrow> good_acc st (acc @ [x])"
  by (auto simp: good_acc_def)

lemma good_acc_butlast: "good_acc st acc \<Longrightarrow> good_acc st (butlast acc)"
  by (auto simp: good_acc_def dest: in_set_butlastD)

lemma good_acc_last: "good_acc st acc \<Longrightarrow> acc \<noteq> [] \<Longrightarrow> last acc = PdfObject s i \<Longrightarrow> s \<in> tokset st"
  by (metis good_acc_def last_in_set)

lemma parse_inv_0: "parse_inv 0"
  by (simp add: parse_inv_def)

lemma parse_inv_Suc:
  assumes ih: "parse_inv n"
  shows "parse_inv (Suc n)"
proof -
  from ih have ihA: "\<And>st acc v st'. readarray n st acc = Inr (v, st') \<Longrightarrow> good_acc st acc \<Longrightarrow>
      parse_rel st st' \<and> (\<exists>xs. v = PdfArray xs None)"
    unfolding parse_inv_def by blast
  from ih have ihD: "\<And>st tok d v st'. readdict_loop n st tok d = Inr (v, st') \<Longrightarrow>
      parse_rel st st' \<and> (\<exists>es. v = PdfDict es None None)"
    unfolding parse_inv_def by blast
  from ih have ihS: "\<And>f st v st'. call_special n f st = Inr (v, st') \<Longrightarrow>
      parse_rel st st' \<and> \<not> is_PdfObject v \<and> \<not> is_PdfIndirect v"
    unfolding parse_inv_def by blast
  have A: "parse_rel st st' \<and> (\<exists>xs. v = PdfArray xs None)"
    if h: "readarray (Suc n) st acc = Inr (v, st')" and g: "good_acc st acc" for st acc v st'
    using h
  proof (cases rule: readarray_SucE)
    case (Eof e)
    then show ?thesis by (simp add: parse_rel_refl)
  next
    case (Close t)
    with next_tok_rel(1) show ?thesis by blast
  next
    case (Ref t st1 val st2)
    note r1 = next_tok_rel(1)[OF Ref(1)]
    from g r1 have g1: "good_acc st1 acc" by (rule good_acc_rel)
    have ga: "\<forall>s i. last (butlast acc) = PdfObject s i \<longrightarrow> s \<in> tokset st1"
      using good_acc_last[OF good_acc_butlast[OF g1] Ref(3)] by blast
    have gb: "\<forall>s i. last acc = PdfObject s i \<longrightarrow> s \<in> tokset st1"
      using good_acc_last[OF g1 Ref(2)] by blast
    note r2 = findindirect_rel(1)[OF Ref(4) ga gb]
    have gv: "\<forall>s i. val = PdfObject s i \<longrightarrow> s \<in> tokset st1"
      using findindirect_rel(2)[OF Ref(4) ga gb] .
    have "good_acc st1 (butlast (butlast acc) @ [val])"
      using good_acc_butlast[OF good_acc_butlast[OF g1]] gv by (intro good_acc_snoc) auto
    then have "good_acc st2 (butlast (butlast acc) @ [val])" using r2 by (rule good_acc_rel)
    from ihA[OF Ref(5) this] parse_rel_trans[OF r1 r2] parse_rel_trans show ?thesis by blast
  next
    case (Plain t st1)
    note r1 = next_tok_rel(1)[OF Plain(1)]
    from next_tok_rel(2)[OF Plain(1)] have "good_acc st (acc @ [PdfObject t None])"
      using g by (intro good_acc_snoc) auto
    then have "good_acc st1 (acc @ [PdfObject t None])" using r1 by (rule good_acc_rel)
    from ihA[OF Plain(2) this] r1 parse_rel_trans show ?thesis by blast
  next
    case (Special t st1 func val st2)
    note r1 = next_tok_rel(1)[OF Special(1)]
    from ihS[OF Special(2)] have r2: "parse_rel st1 st2" and nv: "\<not> is_PdfObject val" by simp_all
    from nv have "\<forall>s i. val = PdfObject s i \<longrightarrow> s \<in> tokset st" by auto
    with g have "good_acc st (acc @ [val])" by (intro good_acc_snoc)
    then have "good_acc st2 (acc @ [val])" using parse_rel_trans[OF r1 r2] by (rule good_acc_rel)
    from ihA[OF Special(3) this] parse_rel_trans[OF r1 r2] parse_rel_trans show ?thesis by blast
  qed
  have D: "parse_rel st st' \<and> (\<exists>es. v = PdfDict es None None)"
    if h: "readdict_loop (Suc n) st tok d = Inr (v, st')" for st tok d v st'
    using h
  proof (cases rule: readdict_loop_SucE)
    case Close
    then show ?thesis by (simp add: parse_rel_refl)
  next
    case (Special t st1 func val st2 tok' st3)
    note r1 = next_tok_rel(1)[OF Special(1)]
    from ihS[OF Special(2)] have r2: "parse_rel st1 st2" by simp
    note r3 = next_tok_rel(1)[OF Special(3)]
    from ihD[OF Special(4)] parse_rel_trans[OF parse_rel_trans[OF r1 r2] r3] parse_rel_trans
    show ?thesis by blast
  next
    case (Ref t st1 tok1 st2 r st3 val st4 tok' st5)
    note r1 = next_tok_rel(1)[OF Ref(1)]
    note r2 = next_tok_rel(1)[OF Ref(2)]
    note r3 = next_tok_rel(1)[OF Ref(3)]
    note r13 = parse_rel_trans[OF parse_rel_trans[OF r1 r2] r3]
    have "t \<in> tokset st3" using next_tok_rel(2)[OF Ref(1)] parse_rel_tokset[OF r13] by simp
    moreover have "tok1 \<in> tokset st3"
      using next_tok_rel(2)[OF Ref(2)] parse_rel_tokset[OF r1] parse_rel_tokset[OF r13] by simp
    ultimately have r4: "parse_rel st3 st4"
      by (intro findindirect_rel(1)[OF Ref(4)]) auto
    note r5 = next_tok_rel(1)[OF Ref(5)]
    from ihD[OF Ref(6)] parse_rel_trans[OF parse_rel_trans[OF r13 r4] r5] parse_rel_trans
    show ?thesis by blast
  next
    case (Plain t st1 tok1 st2)
    note r1 = next_tok_rel(1)[OF Plain(1)]
    note r2 = next_tok_rel(1)[OF Plain(2)]
    from ihD[OF Plain(3)] parse_rel_trans[OF r1 r2] parse_rel_trans show ?thesis by blast
  qed
  have S: "parse_rel st st' \<and> \<not> is_PdfObject v \<and> \<not> is_PdfIndirect v"
    if h: "call_special (Suc n) f st = Inr (v, st')" for f st v st'
    using h
  proof (cases rule: call_special_SucE)
    case (Readdict tok st1)
    from ihD[OF Readdict(2)] next_tok_rel(1)[OF Readdict(1)] parse_rel_trans
    show ?thesis by fastforce
  next
    case Readarray
    from ihA[OF Readarray good_acc_Nil] show ?thesis by auto
  next
    case Empty_obj
    then show ?thesis by (simp add: parse_rel_def set_floc_def table_get_def)
  qed
  from A D S show ?thesis unfolding parse_inv_def by blast
qed

lemma parse_inv_all: "parse_inv n"
  by (induction n) (simp_all add: parse_inv_0 parse_inv_Suc)

lemma call_special_rel:
  "call_special n f st = Inr (v, st') \<Longrightarrow>
     parse_rel st st' \<and> \<not> is_PdfObject v \<and> \<not> is_PdfIndirect v"
  using parse_inv_all[of n] unfolding parse_inv_def by blast

section \<open>What loading an object changes\<close>

lemma misc_rel_refl: "misc_rel st st"
  by (simp add: misc_rel_def)

lemma misc_rel_trans: "misc_rel st st1 \<Longrightarrow> misc_rel st1 st2 \<Longrightarrow> misc_rel st st2"
  by (simp add: misc_rel_def)

lemma misc_rel_parse: "misc_rel st st' \<Longrightarrow> parse_rel st st'"
  by (simp add: misc_rel_def parse_rel_def)

lemma misc_rel_updates:
  "misc_rel st st1 \<Longrightarrow> misc_rel st (set_floc p st1)"
  "misc_rel st st1 \<Longrightarrow> misc_rel st (warning m st1)"
  "misc_rel st st1 \<Longrightarrow> misc_rel st (log_error m st1)"
  "misc_rel st st1 \<Longrightarrow> misc_rel st (st1\<lparr>warned_bad_stream_end := b\<rparr>)"
  "misc_rel st st1 \<Longrightarrow> misc_rel st (st1\<lparr>warned_bad_stream_start := b\<rparr>)"
  by (simp_all add: misc_rel_def set_floc_def warning_def log_error_def)

lemma next_tok_misc: "next_tok st = Inr (t, st1) \<Longrightarrow> misc_rel st st1"
  by (drule next_tok_Inr) (auto simp: misc_rel_def)

lemma multiple_misc: "multiple n st = (ts, st') \<Longrightarrow> misc_rel st st'"
proof (induction n arbitrary: st ts st')
  case 0
  then show ?case by (simp add: misc_rel_refl)
next
  case (Suc n)
  show ?case
  proof (cases "next_tok st")
    case (Inl e)
    with Suc.prems show ?thesis by (simp add: misc_rel_refl)
  next
    case (Inr p)
    obtain t st1 where p: "p = (t, st1)" by (cases p)
    obtain ts1 st2 where m: "multiple n st1 = (ts1, st2)" by (cases "multiple n st1")
    from Suc.prems Inr p m have e: "st' = st2" by simp
    from next_tok_misc Inr p have "misc_rel st st1" by blast
    with Suc.IH[OF m] e show ?thesis by (blast intro: misc_rel_trans)
  qed
qed

lemma resync_misc:
  assumes "resync k off st = Inr (b, st')"
  shows "misc_rel st st'"
proof -
  from assms obtain t st1 where nt: "next_tok (set_floc off st) = Inr (t, st1)"
    unfolding resync_def by (cases "next_tok (set_floc off st)") auto
  have m1: "misc_rel st st1"
    using misc_rel_trans[OF misc_rel_updates(1)[OF misc_rel_refl] next_tok_misc[OF nt]] .
  from assms nt have "st' = warning ''Expected indirect object'' st1 \<or>
      (\<exists>p. st' = set_floc p (warning ''Indirect object found at incorrect offset'' st1))"
    unfolding resync_def by (auto simp: Let_def split: if_splits sum.splits)
  with m1 show ?thesis by (auto intro: misc_rel_updates)
qed

lemma findstream_misc:
  assumes "findstream obj tok st = Inr (ss, st')"
  shows "misc_rel st st'" and "is_PdfDict obj"
proof -
  from assms show d: "is_PdfDict obj" unfolding findstream_def by (auto split: if_splits)
  from assms have "st' = st \<or>
      st' = (warning ''stream keyword terminated by CR without LF'' st)\<lparr>warned_bad_stream_start := True\<rparr>"
    unfolding findstream_def by (auto simp: Let_def split: if_splits sum.splits)
  then show "misc_rel st st'"
    by (auto intro: misc_rel_updates misc_rel_refl)
qed

lemma is_PdfDict_set_stream: "is_PdfDict obj \<Longrightarrow> is_PdfDict (set_stream obj d)"
  by (cases obj) simp_all

lemma readstream_misc:
  assumes r: "readstream obj ss st = Inr (obj2, st')" and d: "is_PdfDict obj"
  shows "misc_rel st st'" and "is_PdfDict obj2"
proof -
  from r obtain len where len: "py_int_obj (obj_Length obj) = Inr len"
    unfolding readstream_def by (cases "py_int_obj (obj_Length obj)") auto
  obtain endit st1 where m: "multiple 2 (set_floc (ss + len) st) = (endit, st1)"
    by (cases "multiple 2 (set_floc (ss + len) st)")
  have m1: "misc_rel st st1"
    using misc_rel_trans[OF misc_rel_updates(1)[OF misc_rel_refl] multiple_misc[OF m]] .
  let ?st2 = "set_floc ss (st1\<lparr>warned_bad_stream_end := False\<rparr>)"
  have m2: "misc_rel st ?st2" using m1 by (intro misc_rel_updates)
  from r len m have cases: "st' = st1 \<or> (\<exists>msg. st' = log_error msg ?st2) \<or>
      (\<exists>msg. st' = warning msg ?st2) \<or> (\<exists>msg p. st' = log_error msg (set_floc p ?st2))"
    unfolding readstream_def by (auto simp: Let_def split: if_splits)
  with m1 m2 show "misc_rel st st'" by (auto intro: misc_rel_updates)
  from r len m have "obj2 = set_stream obj (py_slice (fdata st) ss (ss + len)) \<or>
      (\<exists>d'. obj2 = set_stream (set_stream obj (py_slice (fdata st) ss (ss + len))) d')"
    unfolding readstream_def by (auto simp: Let_def split: if_splits)
  with d show "is_PdfDict obj2" by (auto intro: is_PdfDict_set_stream)
qed

lemma set_indirect_Inr:
  assumes "set_indirect obj k = Inr obj1"
  shows "obj \<noteq> PyNone" and "obj1 \<noteq> PyNone"
    and "is_PdfIndirect obj1 \<Longrightarrow> is_PdfIndirect obj"
    and "is_PdfObject obj1 \<Longrightarrow> is_PdfObject obj"
    and "\<forall>s i. obj1 = PdfObject s i \<longrightarrow> (\<exists>j. obj = PdfObject s j)"
  using assms by (cases obj; auto)+

lemma is_PdfDict_not_others:
  "is_PdfDict x \<Longrightarrow> \<not> is_PdfIndirect x \<and> \<not> is_PdfObject x \<and> x \<noteq> PyNone"
  by (cases x) simp_all

lemma read_body_effect:
  assumes rb: "read_body n k st = Inr (v, st')"
  shows "\<exists>stp. parse_rel st stp \<and> k \<in> set (deferred_objects stp) \<and>
           indirect_objects st' = (indirect_objects stp)(k \<mapsto> v) \<and>
           deferred_objects st' = removeAll k (deferred_objects stp) \<and>
           fdata st' = fdata st \<and> tokenizer st' = tokenizer st \<and>
           obj_offsets st' = obj_offsets st \<and> all_offsets st' = all_offsets st \<and>
           \<not> is_PdfIndirect v \<and> v \<noteq> PyNone \<and>
           (\<forall>s i. v = PdfObject s i \<longrightarrow> s \<in> tokset st)"
proof -
  from rb obtain obj st2 where pa: "read_value n st = Inr (obj, st2)"
    unfolding read_body_def by (cases "read_value n st") auto
  from pa obtain t st1 where nt: "next_tok st = Inr (t, st1)"
    unfolding read_value_def by (cases "next_tok st") auto
  note r1 = next_tok_rel(1)[OF nt]
  have r2: "parse_rel st1 st2" and gobj: "\<forall>s i. obj = PdfObject s i \<longrightarrow> s \<in> tokset st"
    and nind: "\<not> is_PdfIndirect obj"
  proof -
    show "parse_rel st1 st2"
    proof (cases "special_get t")
      case None
      with pa nt show ?thesis by (simp add: read_value_def parse_rel_refl)
    next
      case (Some func)
      with pa nt call_special_rel show ?thesis unfolding read_value_def by auto
    qed
    show "\<forall>s i. obj = PdfObject s i \<longrightarrow> s \<in> tokset st"
    proof (cases "special_get t")
      case None
      with pa nt next_tok_rel(2)[OF nt] show ?thesis by (auto simp: read_value_def)
    next
      case (Some func)
      with pa nt have "call_special n func st1 = Inr (obj, st2)" by (simp add: read_value_def)
      from call_special_rel[OF this] show ?thesis by auto
    qed
    show "\<not> is_PdfIndirect obj"
    proof (cases "special_get t")
      case None
      with pa nt show ?thesis by (auto simp: read_value_def)
    next
      case (Some func)
      with pa nt have "call_special n func st1 = Inr (obj, st2)" by (simp add: read_value_def)
      from call_special_rel[OF this] show ?thesis by auto
    qed
  qed
  note r12 = parse_rel_trans[OF r1 r2]
  from rb pa have kd: "k \<in> set (deferred_objects st2)"
    unfolding read_body_def
    by (auto simp: deferred_remove_def split: if_splits)
  from rb pa kd obtain obj1 where si: "set_indirect obj k = Inr obj1"
    unfolding read_body_def
    by (cases "set_indirect obj k") (auto simp: deferred_remove_def)
  from rb pa kd si obtain tok st3 where n3: "next_tok st2 = Inr (tok, st3)"
    unfolding read_body_def
    by (cases "next_tok st2") (auto simp: deferred_remove_def)
  note m3 = next_tok_misc[OF n3]
  have o1: "\<not> is_PdfIndirect obj1" "obj1 \<noteq> PyNone"
    "\<forall>s i. obj1 = PdfObject s i \<longrightarrow> s \<in> tokset st"
    using set_indirect_Inr[OF si] nind gobj by blast+
  show ?thesis
  proof (cases "tok = ''endobj''")
    case True
    with rb pa kd si n3
    have e: "v = obj1" "st' = st3\<lparr>indirect_objects := (indirect_objects st3)(k \<mapsto> obj1),
                                  deferred_objects := removeAll k (deferred_objects st2)\<rparr>"
      unfolding read_body_def by (auto simp: deferred_remove_def)
    from m3 have f3: "indirect_objects st3 = indirect_objects st2"
      "deferred_objects st3 = deferred_objects st2" "fdata st3 = fdata st2"
      "tokenizer st3 = tokenizer st2" "obj_offsets st3 = obj_offsets st2"
      "all_offsets st3 = all_offsets st2"
      by (simp_all add: misc_rel_def)
    from r12 have f2: "fdata st2 = fdata st" "tokenizer st2 = tokenizer st"
      "obj_offsets st2 = obj_offsets st" "all_offsets st2 = all_offsets st"
      by (simp_all add: parse_rel_def)
    show ?thesis
      by (rule exI[of _ st2]) (use r12 kd e f3 f2 o1 in simp)
  next
    case False
    with rb pa kd si n3 obtain ss st4 where fs: "findstream obj1 tok st3 = Inr (ss, st4)"
      unfolding read_body_def
      by (cases "findstream obj1 tok st3") (auto simp: deferred_remove_def)
    note m4 = findstream_misc(1)[OF fs] and d1 = findstream_misc(2)[OF fs]
    from rb pa kd si n3 False fs obtain obj2 st5 where rs: "readstream obj1 ss st4 = Inr (obj2, st5)"
      unfolding read_body_def
      by (cases "readstream obj1 ss st4") (auto simp: deferred_remove_def)
    note m5 = readstream_misc(1)[OF rs d1] and d2 = readstream_misc(2)[OF rs d1]
    from rb pa kd si n3 False fs rs
    have e: "v = obj2" "st' = st5\<lparr>indirect_objects := (indirect_objects st5)(k \<mapsto> obj2),
                                  deferred_objects := removeAll k (deferred_objects st2)\<rparr>"
      unfolding read_body_def by (auto simp: deferred_remove_def)
    from misc_rel_trans[OF misc_rel_trans[OF m3 m4] m5]
    have f5: "indirect_objects st5 = indirect_objects st2"
      "deferred_objects st5 = deferred_objects st2" "fdata st5 = fdata st2"
      "tokenizer st5 = tokenizer st2" "obj_offsets st5 = obj_offsets st2"
      "all_offsets st5 = all_offsets st2"
      by (simp_all add: misc_rel_def)
    from r12 have f2: "fdata st2 = fdata st" "tokenizer st2 = tokenizer st"
      "obj_offsets st2 = obj_offsets st" "all_offsets st2 = all_offsets st"
      by (simp_all add: parse_rel_def)
    from is_PdfDict_not_others[OF d2] have o2: "\<not> is_PdfIndirect obj2" "obj2 \<noteq> PyNone"
      "\<forall>s i. obj2 = PdfObject s i \<longrightarrow> s \<in> tokset st" by auto
    show ?thesis
      by (rule exI[of _ st2]) (use r12 kd e f5 f2 o2 in simp)
  qed
qed

lemma loadindirect_cases [consumes 1, case_names Cached Missing GivenUp Loaded]:
  assumes "loadindirect n k st = Inr (v, st')"
  obtains "\<not> is_PdfIndirect (table_get st k)" "v = table_get st k" "st' = st"
  | "is_PdfIndirect (table_get st k)" "offset_of st k = 0" "v = PyNone"
      "st' = warning ''Did not find PDF object'' st"
  | objid st1 where "is_PdfIndirect (table_get st k)" "offset_of st k \<noteq> 0"
      "multiple 3 (set_floc (offset_of st k) st) = (objid, st1)" "\<not> header_ok objid k"
      "resync k (offset_of st k) st1 = Inr (False, st')" "v = PyNone"
  | stb where "is_PdfIndirect (table_get st k)" "misc_rel st stb" "read_body n k stb = Inr (v, st')"
proof (cases "is_PdfIndirect (table_get st k)")
  case False
  with assms have "v = table_get st k" "st' = st" by (auto simp: loadindirect_def)
  with False show ?thesis by (rule that(1))
next
  case True
  note ind = True
  show ?thesis
  proof (cases "offset_of st k = 0")
    case True
    with assms ind have "v = PyNone" "st' = warning ''Did not find PDF object'' st"
      by (auto simp: loadindirect_def offset_of_def)
    with ind True show ?thesis by (rule that(2))
  next
    case False
    note off = False
    obtain objid st1 where m: "multiple 3 (set_floc (offset_of st k) st) = (objid, st1)"
      by (cases "multiple 3 (set_floc (offset_of st k) st)")
    have m1: "misc_rel st st1"
      using misc_rel_trans[OF misc_rel_updates(1)[OF misc_rel_refl] multiple_misc[OF m]] .
    show ?thesis
    proof (cases "header_ok objid k")
      case True
      with assms ind off m have "read_body n k st1 = Inr (v, st')"
        by (simp add: loadindirect_def offset_of_def)
      with ind m1 show ?thesis by (rule that(4))
    next
      case False
      note bad = False
      with assms ind off m obtain found st2 where rs: "resync k (offset_of st k) st1 = Inr (found, st2)"
        by (cases "resync k (offset_of st k) st1") (auto simp: loadindirect_def offset_of_def)
      show ?thesis
      proof (cases found)
        case True
        with assms ind off m bad rs have "read_body n k st2 = Inr (v, st')"
          by (simp add: loadindirect_def offset_of_def)
        moreover have "misc_rel st st2" using misc_rel_trans[OF m1 resync_misc[OF rs]] .
        ultimately show ?thesis using ind by (intro that(4))
      next
        case False
        with assms ind off m bad rs have "v = PyNone" "st' = st2"
          by (auto simp: loadindirect_def offset_of_def)
        with ind off m bad rs False show ?thesis by (intro that(3)) auto
      qed
    qed
  qed
qed

lemma next_tok_src:
  assumes "fdata sa = fdata st" "tokenizer sa = tokenizer st" "floc sa = floc st"
  shows "next_tok st = Inl e \<Longrightarrow> next_tok sa = Inl e"
    and "next_tok st = Inr (t, st1) \<Longrightarrow>
           \<exists>sa1. next_tok sa = Inr (t, sa1) \<and> floc sa1 = floc st1 \<and>
                 fdata sa1 = fdata st1 \<and> tokenizer sa1 = tokenizer st1"
  using assms unfolding next_tok_def
  by (auto split: option.splits if_splits)

lemma multiple_src:
  assumes "fdata sa = fdata st" "tokenizer sa = tokenizer st" "floc sa = floc st"
  shows "fst (multiple n sa) = fst (multiple n st) \<and>
         floc (snd (multiple n sa)) = floc (snd (multiple n st)) \<and>
         fdata (snd (multiple n sa)) = fdata (snd (multiple n st)) \<and>
         tokenizer (snd (multiple n sa)) = tokenizer (snd (multiple n st))"
  using assms
proof (induction n arbitrary: st sa)
  case 0
  then show ?case by simp
next
  case (Suc n)
  show ?case
  proof (cases "next_tok st")
    case (Inl e)
    from next_tok_src(1)[OF Suc.prems Inl] Inl Suc.prems show ?thesis by simp
  next
    case (Inr p)
    obtain t st1 where p: "p = (t, st1)" by (cases p)
    from next_tok_src(2)[OF Suc.prems Inr[unfolded p]] obtain sa1 where
      a: "next_tok sa = Inr (t, sa1)" and e: "floc sa1 = floc st1" "fdata sa1 = fdata st1"
         "tokenizer sa1 = tokenizer st1" by blast
    from Suc.IH[OF e(2) e(3) e(1)] Inr p a show ?thesis
      by (auto split: prod.splits)
  qed
qed

lemma resync_src:
  assumes "fdata sa = fdata st" "tokenizer sa = tokenizer st" "floc sa = floc st"
    and r: "resync k off st = Inr (False, st1)"
  shows "\<exists>sa1. resync k off sa = Inr (False, sa1)"
proof -
  from r obtain t st2 where nt: "next_tok (set_floc off st) = Inr (t, st2)"
    unfolding resync_def by (cases "next_tok (set_floc off st)") auto
  have "fdata (set_floc off sa) = fdata (set_floc off st)"
    "tokenizer (set_floc off sa) = tokenizer (set_floc off st)"
    "floc (set_floc off sa) = floc (set_floc off st)"
    using assms(1,2) by (simp_all add: set_floc_def)
  from next_tok_src(2)[OF this nt] obtain sa2 where
    a: "next_tok (set_floc off sa) = Inr (t, sa2)" by blast
  from r nt a assms(1) show ?thesis
    unfolding resync_def by (auto simp: Let_def split: if_splits sum.splits)
qed

lemma loadindirect_given_up_again:
  assumes ind: "is_PdfIndirect (table_get st k)" and off: "offset_of st k \<noteq> 0"
    and m: "multiple 3 (set_floc (offset_of st k) st) = (objid, st1)"
    and bad: "\<not> header_ok objid k"
    and rs: "resync k (offset_of st k) st1 = Inr (False, st')"
  shows "\<exists>st''. loadindirect m' k st' = Inr (PyNone, st'')"
proof -
  have m1: "misc_rel st st1"
    using misc_rel_trans[OF misc_rel_updates(1)[OF misc_rel_refl] multiple_misc[OF m]] .
  have m2: "misc_rel st st'" using misc_rel_trans[OF m1 resync_misc[OF rs]] .
  then have same: "table_get st' k = table_get st k" "offset_of st' k = offset_of st k"
    "fdata st' = fdata st" "tokenizer st' = tokenizer st"
    by (simp_all add: misc_rel_def table_get_def offset_of_def)
  let ?o = "offset_of st k"
  have s: "fdata (set_floc ?o st') = fdata (set_floc ?o st)"
    "tokenizer (set_floc ?o st') = tokenizer (set_floc ?o st)"
    "floc (set_floc ?o st') = floc (set_floc ?o st)"
    using same by (simp_all add: set_floc_def)
  obtain objid' st1' where m': "multiple 3 (set_floc ?o st') = (objid', st1')"
    by (cases "multiple 3 (set_floc ?o st')")
  from multiple_src[OF s, of 3] m m' have eq: "objid' = objid" "floc st1' = floc st1"
    "fdata st1' = fdata st1" "tokenizer st1' = tokenizer st1" by simp_all
  from resync_src[OF eq(3) eq(4) eq(2) rs] obtain st2' where
    rs': "resync k ?o st1' = Inr (False, st2')" by blast
  have "loadindirect m' k st' = Inr (PyNone, st2')"
    using ind off bad same m' eq(1) rs' by (simp add: loadindirect_def offset_of_def)
  then show ?thesis by blast
qed

lemma loadindirect_twice:
  assumes "loadindirect n k st = Inr (v, st')"
  shows "\<exists>st''. loadindirect m k st' = Inr (v, st'')"
  using assms
proof (cases rule: loadindirect_cases)
  case Cached
  then show ?thesis by (simp add: loadindirect_def)
next
  case Missing
  then show ?thesis
    by (simp add: loadindirect_def offset_of_def table_get_def warning_def)
next
  case (GivenUp objid st1)
  from loadindirect_given_up_again[OF GivenUp(1-5)] GivenUp(6) show ?thesis by simp
next
  case (Loaded stb)
  from read_body_effect[OF Loaded(3)] have "indirect_objects st' k = Some v" "\<not> is_PdfIndirect v"
    by auto
  then show ?thesis by (simp add: loadindirect_def table_get_def)
qed

lemma loadindirect_deferred_iff:
  assumes "loadindirect n k st = Inr (v, st')"
  shows "(k \<in> set (deferred_objects st) \<and> k \<notin> set (deferred_objects st')) \<longleftrightarrow>
         (is_PdfIndirect (table_get st k) \<and> \<not> is_PdfIndirect (table_get st' k))"
  using assms
proof (cases rule: loadindirect_cases)
  case Cached
  then show ?thesis by simp
next
  case Missing
  then show ?thesis by (simp add: table_get_def warning_def)
next
  case (GivenUp objid st1)
  have m1: "misc_rel st st1"
    using misc_rel_trans[OF misc_rel_updates(1)[OF misc_rel_refl] multiple_misc[OF GivenUp(3)]] .
  from misc_rel_trans[OF m1 resync_misc[OF GivenUp(5)]] GivenUp(1)
  show ?thesis by (simp add: misc_rel_def table_get_def)
next
  case (Loaded stb)
  from read_body_effect[OF Loaded(3)] obtain stp where
    p: "parse_rel stb stp" and kd: "k \<in> set (deferred_objects stp)"
    and t: "indirect_objects st' = (indirect_objects stp)(k \<mapsto> v)"
    and d: "deferred_objects st' = removeAll k (deferred_objects stp)"
    and nv: "\<not> is_PdfIndirect v" by blast
  from misc_rel_parse[OF Loaded(2)] p have "parse_rel st stp" by (rule parse_rel_trans)
  with kd have "k \<in> set (deferred_objects st) \<or> table_get st k = PyNone"
    unfolding parse_rel_def by blast
  with Loaded(1) have "k \<in> set (deferred_objects st)" by auto
  moreover from d have "k \<notin> set (deferred_objects st')" by simp
  moreover from t nv have "\<not> is_PdfIndirect (table_get st' k)" by (simp add: table_get_def)
  ultimately show ?thesis using Loaded(1) by simp
qed

text \<open>
  Claim C2, as amended. A key whose entry is no longer a placeholder is never
  resolved again: \<open>loadindirect\<close> returns the stored value and leaves the state as it
  is. A key that no cross-reference section lists yields \<open>None\<close> and one warning on
  every call; nothing records the failure, the entry stays a placeholder and the key
  stays deferred. Whenever a call returns, a second call right after it returns the
  same value. In a call that returns, the key leaves the deferred set exactly when
  its entry stops being a placeholder.
\<close>

theorem loadindirect_resolution:
  "(\<not> is_PdfIndirect (table_get st k) \<longrightarrow> loadindirect n k st = Inr (table_get st k, st)) \<and>
   (is_PdfIndirect (table_get st k) \<and> obj_offsets st k = None \<longrightarrow>
      loadindirect n k st = Inr (PyNone, warning ''Did not find PDF object'' st)) \<and>
   (loadindirect n k st = Inr (v, st') \<longrightarrow>
      (\<exists>st''. loadindirect m k st' = Inr (v, st'')) \<and>
      ((k \<in> set (deferred_objects st) \<and> k \<notin> set (deferred_objects st')) \<longleftrightarrow>
       (is_PdfIndirect (table_get st k) \<and> \<not> is_PdfIndirect (table_get st' k))))"
proof (intro conjI impI)
  assume "\<not> is_PdfIndirect (table_get st k)"
  then show "loadindirect n k st = Inr (table_get st k, st)" by (simp add: loadindirect_def)
next
  assume "is_PdfIndirect (table_get st k) \<and> obj_offsets st k = None"
  then show "loadindirect n k st = Inr (PyNone, warning ''Did not find PDF object'' st)"
    by (simp add: loadindirect_def)
next
  assume "loadindirect n k st = Inr (v, st')"
  then show "\<exists>st''. loadindirect m k st' = Inr (v, st'')" by (rule loadindirect_twice)
next
  assume "loadindirect n k st = Inr (v, st')"
  then show "(k \<in> set (deferred_objects st) \<and> k \<notin> set (deferred_objects st')) \<longleftrightarrow>
      (is_PdfIndirect (table_get st k) \<and> \<not> is_PdfIndirect (table_get st' k))"
    by (rule loadindirect_deferred_iff)
qed

theorem loadindirect_resolution_witness:
  "\<not> is_PdfIndirect (table_get ex_stale_deferred (3, 0)) \<and>
   loadindirect 5 (3, 0) ex_stale_deferred = Inr (PyNone, ex_stale_deferred) \<and>
   is_PdfIndirect (table_get ex_missing (1, 0)) \<and> obj_offsets ex_missing (1, 0) = None \<and>
   loadindirect 5 (1, 0) ex_missing = Inr (PyNone, warning ''Did not find PDF object'' ex_missing) \<and>
   (\<exists>st' st''. loadindirect 5 (1, 0) ex_load_ok =
        Inr (PdfDict [(''/Kind'', PdfObject ''/Example'' None)] (Some (1, 0)) None, st') \<and>
      loadindirect 5 (1, 0) st' =
        Inr (PdfDict [(''/Kind'', PdfObject ''/Example'' None)] (Some (1, 0)) None, st'') \<and>
      (1, 0) \<in> set (deferred_objects ex_load_ok) \<and> (1, 0) \<notin> set (deferred_objects st') \<and>
      is_PdfIndirect (table_get ex_load_ok (1, 0)) \<and> \<not> is_PdfIndirect (table_get st' (1, 0)))"
proof -
  have a1: "\<not> is_PdfIndirect (table_get ex_stale_deferred (3, 0))"
    by (simp add: ex_stale_deferred_def new_reader_def table_get_def)
  have a2: "table_get ex_stale_deferred (3, 0) = PyNone"
    by (simp add: ex_stale_deferred_def new_reader_def table_get_def)
  have b1: "is_PdfIndirect (table_get ex_missing (1, 0)) \<and> obj_offsets ex_missing (1, 0) = None"
    by (simp add: ex_missing_def new_reader_def table_get_def)
  have c0: "(case loadindirect 5 (1, 0) ex_load_ok of Inl e \<Rightarrow> PyNone | Inr (v, s) \<Rightarrow> v) =
      PdfDict [(''/Kind'', PdfObject ''/Example'' None)] (Some (1, 0)) None"
    by code_simp
  have c1: "isl (loadindirect 5 (1, 0) ex_load_ok) = False" by code_simp
  from c0 c1 obtain st' where c: "loadindirect 5 (1, 0) ex_load_ok =
      Inr (PdfDict [(''/Kind'', PdfObject ''/Example'' None)] (Some (1, 0)) None, st')"
    by (cases "loadindirect 5 (1, 0) ex_load_ok") auto
  note r1 = loadindirect_resolution[of ex_stale_deferred "(3, 0)" 5]
  note r2 = loadindirect_resolution[of ex_missing "(1, 0)" 5]
  note r3 = loadindirect_resolution[of ex_load_ok "(1, 0)" 5
      "PdfDict [(''/Kind'', PdfObject ''/Example'' None)] (Some (1, 0)) None" st' 5]
  have d: "(1, 0) \<in> set (deferred_objects ex_load_ok)" "is_PdfIndirect (table_get ex_load_ok (1, 0))"
    by (simp_all add: ex_load_ok_def new_reader_def table_get_def)
  from r3 c obtain st'' where e: "loadindirect 5 (1, 0) st' =
      Inr (PdfDict [(''/Kind'', PdfObject ''/Example'' None)] (Some (1, 0)) None, st'')"
    by blast
  have "(case loadindirect 5 (1, 0) ex_load_ok of Inl e \<Rightarrow> False
          | Inr (v, s) \<Rightarrow> (1, 0) \<notin> set (deferred_objects s) \<and> \<not> is_PdfIndirect (table_get s (1, 0)))"
    by code_simp
  with c have f: "(1, 0) \<notin> set (deferred_objects st')" "\<not> is_PdfIndirect (table_get st' (1, 0))"
    by simp_all
  from r1 a1 a2 have x1: "loadindirect 5 (3, 0) ex_stale_deferred = Inr (PyNone, ex_stale_deferred)"
    by simp
  from r2 b1 have x2: "loadindirect 5 (1, 0) ex_missing =
      Inr (PyNone, warning ''Did not find PDF object'' ex_missing)" by blast
  show ?thesis using a1 x1 b1 x2 c e d f by blast
qed

text \<open>
  Claim C2 as stated fails: resolving twice a key that no cross-reference section
  lists logs the warning twice, and the key is still deferred with its placeholder.
\<close>

theorem loadindirect_warns_again_counterexample:
  "(case loadindirect 5 (1, 0) ex_missing of
      Inr (v1, st1) \<Rightarrow>
        (case loadindirect 5 (1, 0) st1 of
           Inr (v2, st2) \<Rightarrow>
             v1 = PyNone \<and> v2 = PyNone \<and>
             logged st2 = [(Warning, ''Did not find PDF object''), (Warning, ''Did not find PDF object'')] \<and>
             deferred_objects st2 = [(1, 0)] \<and> is_PdfIndirect (table_get st2 (1, 0))
         | Inl e \<Rightarrow> False)
    | Inl e \<Rightarrow> False)"
  by code_simp

section \<open>The sweeps of \<open>read_all\<close>\<close>

lemma sweep_rel_refl: "sweep_rel st st"
  by (simp add: sweep_rel_def)

lemma sweep_rel_universe: "sweep_rel st st' \<Longrightarrow> key_universe st' = key_universe st"
  by (simp add: sweep_rel_def key_universe_def)

lemma sweep_rel_trans:
  assumes "sweep_rel st st1" "sweep_rel st1 st2"
  shows "sweep_rel st st2"
proof -
  from assms(1) have u: "key_universe st1 = key_universe st" by (rule sweep_rel_universe)
  from assms u have "set (deferred_objects st2) \<subseteq> set (deferred_objects st) \<union> key_universe st"
    unfolding sweep_rel_def by blast
  moreover from assms u
  have "dom (indirect_objects st2) \<subseteq> dom (indirect_objects st) \<union> key_universe st"
    unfolding sweep_rel_def by blast
  ultimately show ?thesis using assms unfolding sweep_rel_def by simp
qed

lemma misc_rel_sweep: "misc_rel st st' \<Longrightarrow> sweep_rel st st'"
  by (simp add: misc_rel_def sweep_rel_def tokset_def table_toks_def)

lemma parse_rel_dom:
  assumes "parse_rel st st'"
  shows "dom (indirect_objects st') \<subseteq> dom (indirect_objects st) \<union> key_universe st"
proof
  fix k assume k: "k \<in> dom (indirect_objects st')"
  show "k \<in> dom (indirect_objects st) \<union> key_universe st"
  proof (cases "indirect_objects st' k = indirect_objects st k")
    case True
    with k show ?thesis by (auto simp: dom_def)
  next
    case False
    with assms have "k \<in> key_universe st" unfolding parse_rel_def by blast
    then show ?thesis by simp
  qed
qed

lemma loadindirect_sweep:
  assumes "loadindirect n k st = Inr (v, st')"
  shows "sweep_rel st st'"
  using assms
proof (cases rule: loadindirect_cases)
  case Cached
  then show ?thesis by (simp add: sweep_rel_refl)
next
  case Missing
  then show ?thesis by (simp add: misc_rel_sweep misc_rel_updates misc_rel_refl)
next
  case (GivenUp objid st1)
  have m1: "misc_rel st st1"
    using misc_rel_trans[OF misc_rel_updates(1)[OF misc_rel_refl] multiple_misc[OF GivenUp(3)]] .
  from misc_rel_trans[OF m1 resync_misc[OF GivenUp(5)]] show ?thesis by (rule misc_rel_sweep)
next
  case (Loaded stb)
  from read_body_effect[OF Loaded(3)] obtain stp where
    p0: "parse_rel stb stp"
    and t: "indirect_objects st' = (indirect_objects stp)(k \<mapsto> v)"
    and d: "deferred_objects st' = removeAll k (deferred_objects stp)"
    and fd: "fdata st' = fdata stb"
    and gv: "\<forall>s i. v = PdfObject s i \<longrightarrow> s \<in> tokset stb" by blast
  from misc_rel_parse[OF Loaded(2)] p0 have p: "parse_rel st stp" by (rule parse_rel_trans)
  from Loaded(2) have fb: "fdata stb = fdata st" by (simp add: misc_rel_def)
  from parse_rel_tokset[OF misc_rel_parse[OF Loaded(2)]] gv
  have gv': "\<forall>s i. v = PdfObject s i \<longrightarrow> s \<in> tokset st" by simp
  note ts = parse_rel_tokset[OF p] and tt = parse_rel_table_toks[OF p]
  from Loaded(1) obtain k0 where k0: "indirect_objects st k = Some (PdfIndirect k0)"
    by (cases "table_get st k") (auto simp: table_get_def split: option.splits)
  have kp: "indirect_objects stp k = Some (PdfIndirect k0)"
  proof (rule ccontr)
    assume "indirect_objects stp k \<noteq> Some (PdfIndirect k0)"
    with k0 have "indirect_objects stp k \<noteq> indirect_objects st k" by simp
    with p have "table_get st k = PyNone" unfolding parse_rel_def by blast
    with k0 show False by (simp add: table_get_def)
  qed
  have sub1: "table_toks st' \<subseteq> tokset st"
  proof
    fix s assume "s \<in> table_toks st'"
    then obtain k' i where e: "indirect_objects st' k' = Some (PdfObject s i)"
      unfolding table_toks_def by blast
    show "s \<in> tokset st"
    proof (cases "k' = k")
      case True
      with e t gv' show ?thesis by simp
    next
      case False
      with e t have "indirect_objects stp k' = Some (PdfObject s i)" by simp
      then have "s \<in> table_toks stp" unfolding table_toks_def by blast
      with tt show ?thesis by (simp add: tokset_def)
    qed
  qed
  have sub2: "table_toks st \<subseteq> table_toks st'"
  proof
    fix s assume "s \<in> table_toks st"
    with tt have "s \<in> table_toks stp" by simp
    then obtain k' i where e: "indirect_objects stp k' = Some (PdfObject s i)"
      unfolding table_toks_def by blast
    with kp have "k' \<noteq> k" by auto
    with e t have "indirect_objects st' k' = Some (PdfObject s i)" by simp
    then show "s \<in> table_toks st'" unfolding table_toks_def by blast
  qed
  have tk: "tokset st' = tokset st"
    using sub1 sub2 fd fb by (auto simp: tokset_def)
  have df: "set (deferred_objects st') \<subseteq> set (deferred_objects st) \<union> key_universe st"
    using d p unfolding parse_rel_def by auto
  have dm: "dom (indirect_objects st') \<subseteq> dom (indirect_objects st) \<union> key_universe st"
    using t parse_rel_dom[OF p] k0 by auto
  from tk df dm fd fb show ?thesis by (simp add: sweep_rel_def)
qed

lemma load_keys_sweep:
  "load_keys n ks st = (tr, r) \<Longrightarrow>
     (\<exists>zs. ks = tr @ zs) \<and> (\<forall>st'. r = Inr st' \<longrightarrow> sweep_rel st st')"
proof (induction ks arbitrary: st tr r)
  case Nil
  then show ?case by (auto simp: sweep_rel_refl)
next
  case (Cons k ks)
  show ?case
  proof (cases "loadindirect n k st")
    case (Inl e)
    with Cons.prems show ?thesis by auto
  next
    case (Inr p)
    obtain obj st1 where p: "p = (obj, st1)" by (cases p)
    obtain tr1 r1 where l: "load_keys n ks st1 = (tr1, r1)" by (cases "load_keys n ks st1")
    from Cons.prems Inr p l have e: "tr = k # tr1" "r = r1" by simp_all
    from loadindirect_sweep Inr p have s1: "sweep_rel st st1" by blast
    from Cons.IH[OF l] e s1 show ?thesis by (auto intro: sweep_rel_trans)
  qed
qed

lemma norm_index_le: "norm_index s i \<le> length s"
  unfolding norm_index_def by (cases "i < 0") auto

lemma finite_substrings: "finite (substrings s)"
proof -
  have "substrings s \<subseteq> (\<lambda>(m, n). take m (drop n s)) ` ({..length s} \<times> {..length s})"
  proof
    fix t assume "t \<in> substrings s"
    then obtain a b where t: "t = py_slice s a b" unfolding substrings_def by blast
    have "norm_index s b - norm_index s a \<le> length s" "norm_index s a \<le> length s"
      using norm_index_le[of s b] norm_index_le[of s a] by simp_all
    then have "(norm_index s b - norm_index s a, norm_index s a) \<in> {..length s} \<times> {..length s}"
      by simp
    moreover have "t = (\<lambda>(m, n). take m (drop n s)) (norm_index s b - norm_index s a, norm_index s a)"
      using t by (simp add: py_slice_def)
    ultimately show "t \<in> (\<lambda>(m, n). take m (drop n s)) ` ({..length s} \<times> {..length s})"
      by (rule image_eqI[rotated])
  qed
  then show ?thesis by (rule finite_subset) simp
qed

lemma finite_table_toks:
  assumes "finite (dom (indirect_objects st))"
  shows "finite (table_toks st)"
proof -
  have "table_toks st \<subseteq>
      (\<lambda>k. case indirect_objects st k of Some (PdfObject s i) \<Rightarrow> s | _ \<Rightarrow> []) ` dom (indirect_objects st)"
  proof
    fix s assume "s \<in> table_toks st"
    then obtain k i where e: "indirect_objects st k = Some (PdfObject s i)"
      unfolding table_toks_def by blast
    then have "k \<in> dom (indirect_objects st)" by auto
    moreover from e have "s = (case indirect_objects st k of Some (PdfObject s i) \<Rightarrow> s | _ \<Rightarrow> [])"
      by simp
    ultimately show "s \<in> (\<lambda>k. case indirect_objects st k of Some (PdfObject s i) \<Rightarrow> s | _ \<Rightarrow> []) `
        dom (indirect_objects st)" by (rule image_eqI[rotated])
  qed
  with assms show ?thesis by (auto intro: finite_subset)
qed

lemma finite_key_universe:
  assumes "finite (dom (indirect_objects st))"
  shows "finite (key_universe st)"
proof -
  have ft: "finite (tokset st)"
    using finite_substrings finite_table_toks[OF assms] by (simp add: tokset_def)
  have "key_universe st \<subseteq> (\<lambda>(s, t). (the (py_int s), the (py_int t))) ` (tokset st \<times> tokset st)"
  proof
    fix k assume "k \<in> key_universe st"
    then obtain s t where e: "s \<in> tokset st" "t \<in> tokset st" "py_int s = Some (fst k)"
      "py_int t = Some (snd k)" unfolding key_universe_def by blast
    then have "k = (\<lambda>(s, t). (the (py_int s), the (py_int t))) (s, t)" by simp
    moreover from e have "(s, t) \<in> tokset st \<times> tokset st" by simp
    ultimately show "k \<in> (\<lambda>(s, t). (the (py_int s), the (py_int t))) ` (tokset st \<times> tokset st)"
      by (rule image_eqI)
  qed
  with ft show ?thesis by (auto intro: finite_subset)
qed

lemma read_all_loop_ends:
  assumes fin: "finite K"
  shows "sweep_rel st0 st \<Longrightarrow> set (deferred_objects st0) \<union> key_universe st0 \<subseteq> K \<Longrightarrow>
         prev \<subseteq> K \<Longrightarrow> distinct tr \<Longrightarrow> set tr \<subseteq> prev \<Longrightarrow> card K - card prev < f \<Longrightarrow>
         \<exists>tr' r. read_all_loop f n prev tr st = Some (tr', r) \<and> distinct tr'"
proof (induction f arbitrary: prev tr st)
  case 0
  then show ?case by simp
next
  case (Suc f)
  let ?new = "remdups (filter (\<lambda>k. k \<notin> prev) (deferred_objects st))"
  from Suc.prems(1,2) have dK: "set (deferred_objects st) \<subseteq> K"
    unfolding sweep_rel_def by blast
  show ?case
  proof (cases "?new = []")
    case True
    with Suc.prems(4) show ?thesis by (simp add: Let_def)
  next
    case False
    obtain tr1 r1 where lk: "load_keys n ?new st = (tr1, r1)" by (cases "load_keys n ?new st")
    from load_keys_sweep[OF lk] obtain zs where pre: "?new = tr1 @ zs"
      and sw: "\<forall>st'. r1 = Inr st' \<longrightarrow> sweep_rel st st'" by blast
    have "distinct ?new" by simp
    with pre have d1: "distinct tr1" by (metis distinct_append)
    have "set tr1 \<subseteq> set ?new" using pre by (metis set_append Un_upper1)
    then have s1: "set tr1 \<subseteq> set (deferred_objects st)" "set tr1 \<inter> prev = {}" by auto
    with Suc.prems(4,5) d1 have dt: "distinct (tr @ tr1)" by auto
    show ?thesis
    proof (cases r1)
      case (Inl e)
      with False lk dt show ?thesis by (simp add: Let_def)
    next
      case (Inr st')
      with sw have sw': "sweep_rel st st'" by simp
      let ?prev' = "prev \<union> set (deferred_objects st)"
      have a1: "sweep_rel st0 st'" using Suc.prems(1) sw' by (rule sweep_rel_trans)
      have a3: "?prev' \<subseteq> K" using Suc.prems(3) dK by simp
      have a5: "set (tr @ tr1) \<subseteq> ?prev'" using Suc.prems(5) s1(1) by auto
      from False obtain k where "k \<in> set ?new" by (cases ?new) auto
      then have "k \<in> ?prev'" "k \<notin> prev" by auto
      then have "prev \<subset> ?prev'" by auto
      moreover have "finite ?prev'" using a3 fin by (rule finite_subset)
      ultimately have "card prev < card ?prev'" by (rule psubset_card_mono[rotated])
      moreover have "card ?prev' \<le> card K" using a3 fin by (simp add: card_mono)
      ultimately have a6: "card K - card ?prev' < f" using Suc.prems(6) by linarith
      from Suc.IH[OF a1 Suc.prems(2) a3 dt a5 a6] False lk Inr
      show ?thesis by (simp add: Let_def)
    qed
  qed
qed

text \<open>
  The sweeps of \<open>read_all\<close> are bounded. For every loader state (the table being a
  finite dictionary) there is a number of sweeps within which the loop ends,
  whatever the bound of the container parser: it ends with the final state, with an
  exception of a load, or inside a load that does not return. The keys handed to
  \<open>loadindirect\<close> during the call are pairwise distinct: each key is attempted at
  most once, so a key that stays deferred cannot keep the loop running.
\<close>

theorem read_all_sweeps_end:
  assumes "finite (dom (indirect_objects st))"
  shows "\<exists>B. \<forall>f n. B \<le> f \<longrightarrow> (\<exists>tr r. read_all f n st = Some (tr, r) \<and> distinct tr)"
proof -
  let ?K = "set (deferred_objects st) \<union> key_universe st"
  have fin: "finite ?K" using finite_key_universe[OF assms] by simp
  have "\<exists>tr r. read_all f n st = Some (tr, r) \<and> distinct tr" if "Suc (card ?K) \<le> f" for f n
  proof -
    from that have "card ?K - card ({} :: key set) < f" by simp
    from read_all_loop_ends[OF fin sweep_rel_refl subset_refl _ _ _ this, of "[]" n]
    show ?thesis by (simp add: read_all_def)
  qed
  then show ?thesis by blast
qed

theorem read_all_sweeps_end_witness:
  "finite (dom (indirect_objects ex_load_ok)) \<and>
   (\<exists>B tr r. read_all B 5 ex_load_ok = Some (tr, r) \<and> distinct tr)"
proof -
  have h: "finite (dom (indirect_objects ex_load_ok))"
    by (simp add: ex_load_ok_def new_reader_def)
  from read_all_sweeps_end[OF h] obtain B where
    "\<forall>f n. B \<le> f \<longrightarrow> (\<exists>tr r. read_all f n ex_load_ok = Some (tr, r) \<and> distinct tr)"
    by blast
  then have "\<exists>tr r. read_all B 5 ex_load_ok = Some (tr, r) \<and> distinct tr" by blast
  with h show ?thesis by blast
qed

lemma endless_next_tok:
  assumes "fdata st = ex_endless_data" "tokenizer st = pdf_tokenizer" "floc st = 10 \<or> floc st = 11"
  shows "next_tok st = Inr (''endobj'', st\<lparr>tokstart := 11, floc := 17\<rparr>)"
proof -
  have t: "pdf_tokenizer ex_endless_data 10 = Some (11, 17)"
    "pdf_tokenizer ex_endless_data 11 = Some (11, 17)" by code_simp+
  have s: "py_slice ex_endless_data 11 17 = ''endobj''" by code_simp
  have l: "(17::int) \<le> int (length ex_endless_data)" by code_simp
  from assms t s l show ?thesis by (auto simp: next_tok_def)
qed

lemma endless_readarray:
  "fdata st = ex_endless_data \<Longrightarrow> tokenizer st = pdf_tokenizer \<Longrightarrow> floc st = 10 \<or> floc st = 11 \<Longrightarrow>
     readarray n st acc = Inl OutOfFuel"
proof (induction n arbitrary: st acc)
  case 0
  then show ?case by simp
next
  case (Suc n)
  let ?st1 = "st\<lparr>tokstart := 11, floc := 17\<rparr>"
  note nt = endless_next_tok[OF Suc.prems]
  have sp: "special_get ''endobj'' = Some Empty_obj" by (simp add: special_get_def)
  show ?case
  proof (cases n)
    case 0
    with nt sp show ?thesis by simp
  next
    case (Suc m)
    have cs: "call_special n Empty_obj ?st1 = Inr (PyNone, set_floc 11 ?st1)"
      using Suc by (simp add: empty_obj_def)
    have "readarray n (set_floc 11 ?st1) (acc @ [PyNone]) = Inl OutOfFuel"
      using Suc.prems by (intro Suc.IH) (simp_all add: set_floc_def)
    with nt sp cs show ?thesis by simp
  qed
qed

lemma endless_loadindirect: "loadindirect n (1, 0) ex_endless = Inl OutOfFuel"
proof -
  obtain objid st1 where m: "multiple 3 (set_floc 1 ex_endless) = (objid, st1)"
    by (cases "multiple 3 (set_floc 1 ex_endless)")
  have "header_ok (fst (multiple 3 (set_floc 1 ex_endless))) (1, 0)" by code_simp
  with m have ok: "header_ok objid (1, 0)" by simp
  have "floc (snd (multiple 3 (set_floc 1 ex_endless))) = 8" by code_simp
  with m have fl: "floc st1 = 8" by simp
  from multiple_misc[OF m] have f1: "fdata st1 = ex_endless_data" "tokenizer st1 = pdf_tokenizer"
    by (simp_all add: misc_rel_def set_floc_def ex_endless_def new_reader_def)
  have t: "pdf_tokenizer ex_endless_data 8 = Some (9, 10)" by code_simp
  have s: "py_slice ex_endless_data 9 10 = ''[''" by code_simp
  have l: "(10::int) \<le> int (length ex_endless_data)" by code_simp
  from f1 fl t s l have nt: "next_tok st1 = Inr (''['', st1\<lparr>tokstart := 9, floc := 10\<rparr>)"
    by (auto simp: next_tok_def)
  have sp: "special_get ''['' = Some Readarray" by (simp add: special_get_def)
  have "call_special n Readarray (st1\<lparr>tokstart := 9, floc := 10\<rparr>) = Inl OutOfFuel"
  proof (cases n)
    case 0
    then show ?thesis by simp
  next
    case (Suc m)
    have "readarray m (st1\<lparr>tokstart := 9, floc := 10\<rparr>) [] = Inl OutOfFuel"
      using f1 by (intro endless_readarray) simp_all
    with Suc show ?thesis by simp
  qed
  with nt sp have "read_body n (1, 0) st1 = Inl OutOfFuel"
    by (simp add: read_body_def read_value_def)
  moreover have "table_get ex_endless (1, 0) = PdfIndirect (1, 0)"
    "obj_offsets ex_endless (1, 0) = Some 1"
    by (simp_all add: table_get_def ex_endless_def)
  ultimately show ?thesis using m ok by (simp add: loadindirect_def)
qed

text \<open>
  Claim C10 fails on the code: not every call of \<open>read_all\<close> returns. In the object
  \<open>1 0 obj [ endobj\<close> the array parser meets \<open>endobj\<close>, \<open>empty_obj\<close> moves the offset
  back to the start of that token, and the loop of \<open>readarray\<close> reads the same token
  again, for ever. Whatever the two bounds, \<open>read_all\<close> ends neither with a state
  nor with an exception of the code.
\<close>

theorem read_all_endless_array:
  "\<forall>f n. read_all f n ex_endless = None \<or> read_all f n ex_endless = Some ([(1, 0)], Inl OutOfFuel)"
proof (intro allI)
  fix f n
  have d: "deferred_objects ex_endless = [(1, 0)]" by (simp add: ex_endless_def)
  show "read_all f n ex_endless = None \<or> read_all f n ex_endless = Some ([(1, 0)], Inl OutOfFuel)"
  proof (cases f)
    case 0
    then show ?thesis by (simp add: read_all_def)
  next
    case (Suc g)
    with d endless_loadindirect[of n] show ?thesis by (simp add: read_all_def Let_def)
  qed
qed

section \<open>Page tree flattening never raises\<close>






section \<open>Recovery of a malformed cross-reference section\<close>

lemma add_entry_fields [simp]:
  "logged (add_entry k v st) = logged st" "fdata (add_entry k v st) = fdata st"
  "obj_offsets (add_entry k v st) = setdefault k v (obj_offsets st)"
  "all_offsets (add_entry k v st) = all_offsets st @ [v]"
  by (simp_all add: add_entry_def)

lemma setdefault_all_Nil [simp]: "setdefault_all [] m = m"
  by (simp add: setdefault_all_def)

lemma setdefault_all_Cons [simp]:
  "setdefault_all ((k, v) # es) m = setdefault_all es (setdefault k v m)"
  by (simp add: setdefault_all_def)
















section \<open>Merging the sections of an updated document\<close>







end
